theory Spec2Isabelle
  imports Main "HOL-Library.Sublist"
begin

section \<open>Python values shared by the components\<close>

text \<open>
  An exception carries its \<open>args\<close> tuple; the handlers of the gateway read
  \<open>e.args[0]\<close> as the status code and \<open>e.args[1]\<close> as the message.
  \<open>StopIteration\<close> is what \<open>next\<close> raises on an exhausted iterator.
\<close>

datatype pyval = IntV int | StrV string

datatype exc = StopIteration | Exception "pyval list"

fun args :: "exc \<Rightarrow> pyval list" where
  "args StopIteration = []"
| "args (Exception as) = as"

text \<open>\<open>e.args[0] if e.args else 500\<close>\<close>

definition status_of :: "exc \<Rightarrow> pyval" where
  "status_of e = (case args e of [] \<Rightarrow> IntV 500 | a # _ \<Rightarrow> a)"

text \<open>
  \<open>e.args[1] if len(e.args) > 1 else str(e)\<close>; Python's \<open>str\<close> on an exception is
  kept abstract and passed as \<open>str\<close>.
\<close>

definition message_of :: "(exc \<Rightarrow> string) \<Rightarrow> exc \<Rightarrow> pyval" where
  "message_of str e = (case args e of _ # b # _ \<Rightarrow> b | _ \<Rightarrow> StrV (str e))"

definition newline :: string where
  "newline = [CHR 0x0A]"

section \<open>KeyManager (app/service/key/key_manager.py)\<close>

text \<open>
  \<open>key_cycle\<close> is \<open>itertools.cycle(api_keys)\<close>: the list is never mutated after
  construction, so the iterator is the number of items already drawn, and the next
  item is \<open>api_keys[key_cycle mod len(api_keys)]\<close>.
\<close>

record key_manager =
  api_keys :: "string list"
  key_cycle :: nat
  key_failure_counts :: "string \<rightharpoonup> int"
  MAX_FAILURES :: int

definition KeyManager :: "int \<Rightarrow> string list \<Rightarrow> key_manager" where
  "KeyManager settings_MAX_FAILURES keys =
     \<lparr>api_keys = keys, key_cycle = 0,
      key_failure_counts = map_of (map (\<lambda>key. (key, 0)) keys),
      MAX_FAILURES = settings_MAX_FAILURES\<rparr>"

definition get_next_key :: "key_manager \<Rightarrow> exc + string \<times> key_manager" where
  "get_next_key s =
     (if api_keys s = [] then Inl StopIteration
      else Inr (api_keys s ! (key_cycle s mod length (api_keys s)),
                s\<lparr>key_cycle := key_cycle s + 1\<rparr>))"

definition get_fail_count :: "key_manager \<Rightarrow> string \<Rightarrow> int" where
  "get_fail_count s key = (case key_failure_counts s key of Some c \<Rightarrow> c | None \<Rightarrow> 0)"

definition is_key_valid :: "key_manager \<Rightarrow> string \<Rightarrow> bool" where
  "is_key_valid s key = (get_fail_count s key < MAX_FAILURES s)"

definition reset_failure_counts :: "key_manager \<Rightarrow> key_manager" where
  "reset_failure_counts s =
     s\<lparr>key_failure_counts := (\<lambda>key. map_option (\<lambda>_. 0) (key_failure_counts s key))\<rparr>"

definition reset_key_failure_count :: "string \<Rightarrow> key_manager \<Rightarrow> bool \<times> key_manager" where
  "reset_key_failure_count key s =
     (if key \<in> dom (key_failure_counts s)
      then (True, s\<lparr>key_failure_counts := (key_failure_counts s)(key \<mapsto> 0)\<rparr>)
      else (False, s))"

text \<open>
  The \<open>while True\<close> loop of \<open>get_next_working_key\<close>: \<open>None\<close> stands for a loop
  that never returns.
\<close>

partial_function (option) next_working_key_loop ::
  "string \<Rightarrow> string \<Rightarrow> key_manager \<Rightarrow> (exc + string \<times> key_manager) option" where
  "next_working_key_loop initial_key current_key s =
     (if is_key_valid s current_key then Some (Inr (current_key, s))
      else (case get_next_key s of
              Inl e \<Rightarrow> Some (Inl e)
            | Inr (next_key, s') \<Rightarrow>
                if next_key = initial_key then Some (Inr (next_key, s'))
                else next_working_key_loop initial_key next_key s'))"

definition get_next_working_key :: "key_manager \<Rightarrow> (exc + string \<times> key_manager) option" where
  "get_next_working_key s =
     (if api_keys s = [] then Some (Inr ([], s))
      else (case get_next_key s of
              Inl e \<Rightarrow> Some (Inl e)
            | Inr (initial_key, s') \<Rightarrow> next_working_key_loop initial_key initial_key s'))"

definition handle_api_failure ::
  "int \<Rightarrow> string \<Rightarrow> int \<Rightarrow> key_manager \<Rightarrow> (exc + string \<times> key_manager) option" where
  "handle_api_failure settings_MAX_RETRIES api_key retries s =
     (let s1 = (case key_failure_counts s api_key of
                  Some c \<Rightarrow> s\<lparr>key_failure_counts := (key_failure_counts s)(api_key \<mapsto> c + 1)\<rparr>
                | None \<Rightarrow> s)
      in if retries < settings_MAX_RETRIES then get_next_working_key s1
         else Some (Inr ([], s1)))"

fun first_valid :: "key_manager \<Rightarrow> string list \<Rightarrow> string option" where
  "first_valid s [] = None"
| "first_valid s (key # keys) =
     (if get_fail_count s key < MAX_FAILURES s then Some key else first_valid s keys)"

definition get_first_valid_key :: "key_manager \<Rightarrow> string" where
  "get_first_valid_key s =
     (case first_valid s (api_keys s) of
        Some key \<Rightarrow> key
      | None \<Rightarrow> (case api_keys s of key # _ \<Rightarrow> key | [] \<Rightarrow> []))"


text \<open>
  The failure branch of the scheduled job \<open>check_failed_keys\<close>
  (app/scheduler/scheduled_tasks.py): the count of a key whose probe failed is
  incremented only while it is below \<open>MAX_FAILURES\<close>.
\<close>

definition check_failed_key_failure :: "string \<Rightarrow> key_manager \<Rightarrow> key_manager" where
  "check_failed_key_failure key s =
     (case key_failure_counts s key of
        Some c \<Rightarrow>
          if c < MAX_FAILURES s
          then s\<lparr>key_failure_counts := (key_failure_counts s)(key \<mapsto> c + 1)\<rparr>
          else s
      | None \<Rightarrow> s)"

subsection \<open>Runs of operations\<close>

datatype key_op =
    Get_next_key
  | Reset_failure_counts
  | Reset_key_failure_count string
  | Get_next_working_key
  | Handle_api_failure string int
  | Check_failed_key_failure string

text \<open>
  The operations on the state of a KeyManager, as one step. The result values are not
  kept; a call that would not return leaves the state as it is.
\<close>

fun key_step :: "int \<Rightarrow> key_op \<Rightarrow> key_manager \<Rightarrow> key_manager" where
  "key_step settings_MAX_RETRIES Get_next_key s =
     (case get_next_key s of Inr (_, s') \<Rightarrow> s' | Inl _ \<Rightarrow> s)"
| "key_step settings_MAX_RETRIES Reset_failure_counts s = reset_failure_counts s"
| "key_step settings_MAX_RETRIES (Reset_key_failure_count key) s =
     snd (reset_key_failure_count key s)"
| "key_step settings_MAX_RETRIES Get_next_working_key s =
     (case get_next_working_key s of Some (Inr (_, s')) \<Rightarrow> s' | _ \<Rightarrow> s)"
| "key_step settings_MAX_RETRIES (Handle_api_failure key retries) s =
     (case handle_api_failure settings_MAX_RETRIES key retries s of
        Some (Inr (_, s')) \<Rightarrow> s' | _ \<Rightarrow> s)"
| "key_step settings_MAX_RETRIES (Check_failed_key_failure key) s = check_failed_key_failure key s"

text \<open>No failure count is negative.\<close>

definition counts_not_negative :: "key_manager \<Rightarrow> bool" where
  "counts_not_negative s = (\<forall>key c. key_failure_counts s key = Some c \<longrightarrow> 0 \<le> c)"

subsection \<open>The module-level singleton and its re-instantiation\<close>

record key_manager_globals =
  singleton_instance :: "key_manager option"
  preserved_failure_counts :: "(string \<rightharpoonup> int) option"
  preserved_old_api_keys_for_reset :: "string list option"
  preserved_next_key_in_cycle :: "string option"

text \<open>\<open>list.index\<close>: the first position of an item, \<open>None\<close> for \<open>ValueError\<close>.\<close>

fun index_of :: "'a list \<Rightarrow> 'a \<Rightarrow> nat option" where
  "index_of [] x = None"
| "index_of (y # ys) x = (if y = x then Some 0 else map_option Suc (index_of ys x))"

definition reset_key_manager_instance :: "key_manager_globals \<Rightarrow> key_manager_globals" where
  "reset_key_manager_instance g =
     (case singleton_instance g of
        Some inst \<Rightarrow>
          g\<lparr>preserved_failure_counts := Some (key_failure_counts inst),
            preserved_old_api_keys_for_reset := Some (api_keys inst),
            preserved_next_key_in_cycle :=
              (case get_next_key inst of Inr (key, _) \<Rightarrow> Some key | Inl _ \<Rightarrow> None),
            singleton_instance := None\<rparr>
      | None \<Rightarrow> g)"

text \<open>
  The counts restored into a fresh instance: every key of the new list starts at zero
  and takes the preserved count when the preserved dictionary has the key. (The source
  skips this when the preserved dictionary is empty, where it would change nothing.)
\<close>

definition inherit_failure_counts :: "(string \<rightharpoonup> int) \<Rightarrow> key_manager \<Rightarrow> key_manager" where
  "inherit_failure_counts preserved inst =
     inst\<lparr>key_failure_counts :=
            map_of (map (\<lambda>key. (key, case preserved key of Some count \<Rightarrow> count | None \<Rightarrow> 0))
                        (api_keys inst))\<rparr>"

definition start_key_for_new_cycle ::
  "string list option \<Rightarrow> string option \<Rightarrow> string list \<Rightarrow> string option" where
  "start_key_for_new_cycle old_keys next_key new_keys =
     (case (old_keys, next_key) of
        (Some old, Some nk) \<Rightarrow>
          if old \<noteq> [] \<and> nk \<noteq> [] \<and> new_keys \<noteq> [] then
            (case index_of old nk of
               None \<Rightarrow> None
             | Some start_idx_in_old \<Rightarrow>
                 List.find (\<lambda>key_candidate. key_candidate \<in> set new_keys)
                   (map (\<lambda>i. old ! ((start_idx_in_old + i) mod length old)) [0..<length old]))
          else None
      | _ \<Rightarrow> None)"

definition get_key_manager_instance ::
  "int \<Rightarrow> string list option \<Rightarrow> key_manager_globals \<Rightarrow> (exc + key_manager) \<times> key_manager_globals" where
  "get_key_manager_instance settings_MAX_FAILURES keys g =
     (case singleton_instance g of
        Some inst \<Rightarrow> (Inr inst, g)
      | None \<Rightarrow>
          (case keys of
             None \<Rightarrow> (Inl (Exception [StrV ''API keys are required to initialize the KeyManager instance.'']), g)
           | Some ks \<Rightarrow>
               let inst0 = KeyManager settings_MAX_FAILURES ks;
                   inst1 = (case preserved_failure_counts g of
                              Some preserved \<Rightarrow> inherit_failure_counts preserved inst0
                            | None \<Rightarrow> inst0);
                   inst2 = (case start_key_for_new_cycle (preserved_old_api_keys_for_reset g)
                                   (preserved_next_key_in_cycle g) ks of
                              Some start_key \<Rightarrow>
                                if start_key \<noteq> [] \<and> ks \<noteq> [] then
                                  (case index_of ks start_key of
                                     Some target_idx \<Rightarrow> inst1\<lparr>key_cycle := target_idx\<rparr>
                                   | None \<Rightarrow> inst1)
                                else inst1
                            | None \<Rightarrow> inst1)
               in (Inr inst2,
                   g\<lparr>singleton_instance := Some inst2,
                     preserved_failure_counts := None,
                     preserved_old_api_keys_for_reset := None,
                     preserved_next_key_in_cycle := None\<rparr>)))"

section \<open>ProviderKeyManager (app/service/provider/provider_key_manager.py)\<close>

record provider_config =
  cfg_name :: string
  cfg_path :: string
  cfg_base_url :: string
  cfg_api_keys :: "string list"
  cfg_model_request_key :: string
  cfg_max_failures :: int
  cfg_max_retries :: int
  cfg_enabled :: bool

record provider_key_manager =
  managers :: "string \<rightharpoonup> key_manager"
  configs :: "string \<rightharpoonup> provider_config"

text \<open>The body of the \<open>for key in manager.api_keys\<close> loop that restores a count.\<close>

definition restore_count :: "(string \<rightharpoonup> int) \<Rightarrow> string \<Rightarrow> key_manager \<Rightarrow> key_manager" where
  "restore_count old_counts key manager =
     (case old_counts key of
        Some c \<Rightarrow> manager\<lparr>key_failure_counts := (key_failure_counts manager)(key \<mapsto> c)\<rparr>
      | None \<Rightarrow> manager)"

definition reload_provider ::
  "int \<Rightarrow> (string \<rightharpoonup> (string \<rightharpoonup> int)) \<Rightarrow> provider_config \<Rightarrow> provider_key_manager
     \<Rightarrow> provider_key_manager" where
  "reload_provider settings_MAX_FAILURES preserved_counts config pkm =
     (if \<not> cfg_enabled config then pkm
      else if cfg_api_keys config = [] then pkm
      else
        let manager = (KeyManager settings_MAX_FAILURES (cfg_api_keys config))
                        \<lparr>MAX_FAILURES := cfg_max_failures config\<rparr>;
            manager' = (case preserved_counts (cfg_name config) of
                          Some old_counts \<Rightarrow> fold (restore_count old_counts) (api_keys manager) manager
                        | None \<Rightarrow> manager)
        in pkm\<lparr>managers := (managers pkm)(cfg_name config \<mapsto> manager'),
               configs := (configs pkm)(cfg_name config \<mapsto> config)\<rparr>)"

definition reload_providers ::
  "int \<Rightarrow> provider_config list \<Rightarrow> provider_key_manager \<Rightarrow> provider_key_manager" where
  "reload_providers settings_MAX_FAILURES new_configs pkm =
     (let preserved_counts = (\<lambda>name. map_option key_failure_counts (managers pkm name))
      in fold (reload_provider settings_MAX_FAILURES preserved_counts) new_configs
           (pkm\<lparr>managers := Map.empty, configs := Map.empty\<rparr>))"

section \<open>ProxyManager (app/service/proxy/proxy_manager.py)\<close>

record proxy_manager =
  proxies :: "string list"
  proxy_failure_counts :: "string \<rightharpoonup> int"
  disabled_proxies :: "string set"
  key_proxy_bindings :: "string \<rightharpoonup> string"
  proxy_MAX_FAILURES :: int
  last_check_time :: "string \<rightharpoonup> nat"

definition ProxyManager :: "int \<Rightarrow> string list \<Rightarrow> proxy_manager" where
  "ProxyManager settings_PROXY_MAX_FAILURES ps =
     \<lparr>proxies = ps,
      proxy_failure_counts = map_of (map (\<lambda>proxy. (proxy, 0)) ps),
      disabled_proxies = {},
      key_proxy_bindings = Map.empty,
      proxy_MAX_FAILURES = settings_PROXY_MAX_FAILURES,
      last_check_time = Map.empty\<rparr>"

text \<open>
  \<open>keys_to_unbind = [k for k, v in bindings.items() if v == proxy]\<close> followed by
  \<open>del bindings[key]\<close> for each of them: every entry whose value is \<open>proxy\<close> goes.
\<close>

definition unbind_proxy :: "string \<Rightarrow> (string \<rightharpoonup> string) \<Rightarrow> (string \<rightharpoonup> string)" where
  "unbind_proxy proxy bindings = (\<lambda>k. if bindings k = Some proxy then None else bindings k)"

definition zero_failure_count :: "string \<Rightarrow> proxy_manager \<Rightarrow> proxy_manager" where
  "zero_failure_count proxy s = s\<lparr>proxy_failure_counts := (proxy_failure_counts s)(proxy \<mapsto> 0)\<rparr>"

definition remove_proxy :: "string \<Rightarrow> proxy_manager \<Rightarrow> proxy_manager" where
  "remove_proxy proxy s =
     s\<lparr>proxy_failure_counts := (proxy_failure_counts s)(proxy := None),
       disabled_proxies := disabled_proxies s - {proxy},
       last_check_time := (last_check_time s)(proxy := None),
       key_proxy_bindings := unbind_proxy proxy (key_proxy_bindings s)\<rparr>"

definition reload_proxies :: "string list \<Rightarrow> proxy_manager \<Rightarrow> proxy_manager" where
  "reload_proxies new_proxies s =
     (let added = filter (\<lambda>proxy. proxy \<notin> set (proxies s)) (remdups new_proxies);
          removed = filter (\<lambda>proxy. proxy \<notin> set new_proxies) (remdups (proxies s))
      in (fold remove_proxy removed (fold zero_failure_count added s))\<lparr>proxies := new_proxies\<rparr>)"

definition get_available_proxies :: "proxy_manager \<Rightarrow> string list" where
  "get_available_proxies s = filter (\<lambda>p. p \<notin> disabled_proxies s) (proxies s)"

text \<open>
  \<open>hash\<close> is Python's \<open>hash\<close> on strings (fixed within a process, any integer),
  \<open>use_hash\<close> is \<open>settings.PROXIES_USE_CONSISTENCY_HASH_BY_API_KEY\<close>, and \<open>rnd\<close> is
  the draw of \<open>random.choice\<close>, which returns the item at \<open>rnd mod len\<close>. Python's
  \<open>%\<close> with a positive divisor is never negative, as \<open>mod\<close> on \<open>int\<close>.
\<close>

definition get_proxy_for_key ::
  "(string \<Rightarrow> int) \<Rightarrow> bool \<Rightarrow> nat \<Rightarrow> string \<Rightarrow> proxy_manager
     \<Rightarrow> string option \<times> proxy_manager" where
  "get_proxy_for_key hash use_hash rnd api_key s =
     (if proxies s = [] then (None, s)
      else
        let available_proxies = filter (\<lambda>p. p \<notin> disabled_proxies s) (proxies s) in
        if available_proxies = [] then
          (case proxies s of p # _ \<Rightarrow> (Some p, s) | [] \<Rightarrow> (None, s))
        else if use_hash then
          (case key_proxy_bindings s api_key of
             Some bound_proxy \<Rightarrow>
               if bound_proxy \<in> set available_proxies then (Some bound_proxy, s)
               else
                 let s1 = s\<lparr>key_proxy_bindings := (key_proxy_bindings s)(api_key := None)\<rparr>;
                     proxy = available_proxies !
                               nat (hash api_key mod int (length available_proxies))
                 in (Some proxy,
                     s1\<lparr>key_proxy_bindings := (key_proxy_bindings s1)(api_key \<mapsto> proxy)\<rparr>)
           | None \<Rightarrow>
               let proxy = available_proxies !
                             nat (hash api_key mod int (length available_proxies))
               in (Some proxy,
                   s\<lparr>key_proxy_bindings := (key_proxy_bindings s)(api_key \<mapsto> proxy)\<rparr>))
        else (Some (available_proxies ! (rnd mod length available_proxies)), s))"

definition record_proxy_failure :: "string \<Rightarrow> proxy_manager \<Rightarrow> bool \<times> proxy_manager" where
  "record_proxy_failure proxy s =
     (if proxy = [] then (False, s)
      else
        (case proxy_failure_counts s proxy of
           None \<Rightarrow> (False, s)
         | Some c \<Rightarrow>
             let current_count = c + 1;
                 s1 = s\<lparr>proxy_failure_counts := (proxy_failure_counts s)(proxy \<mapsto> current_count)\<rparr>
             in if current_count \<ge> proxy_MAX_FAILURES s1 then
                  (True, s1\<lparr>disabled_proxies := insert proxy (disabled_proxies s1),
                            key_proxy_bindings := unbind_proxy proxy (key_proxy_bindings s1)\<rparr>)
                else (False, s1)))"

definition record_proxy_success :: "string \<Rightarrow> proxy_manager \<Rightarrow> proxy_manager" where
  "record_proxy_success proxy s =
     (if proxy = [] then s
      else
        (case proxy_failure_counts s proxy of
           None \<Rightarrow> s
         | Some c \<Rightarrow>
             if c > 0 then s\<lparr>proxy_failure_counts := (proxy_failure_counts s)(proxy \<mapsto> 0)\<rparr>
             else s))"

definition reset_proxy :: "string \<Rightarrow> proxy_manager \<Rightarrow> proxy_manager" where
  "reset_proxy proxy s =
     (let s1 = (if proxy \<in> dom (proxy_failure_counts s)
                then s\<lparr>proxy_failure_counts := (proxy_failure_counts s)(proxy \<mapsto> 0)\<rparr>
                else s)
      in s1\<lparr>disabled_proxies := disabled_proxies s1 - {proxy}\<rparr>)"

definition reset_all_proxies :: "proxy_manager \<Rightarrow> proxy_manager" where
  "reset_all_proxies s =
     (fold zero_failure_count (proxies s) s)
       \<lparr>disabled_proxies := {}, key_proxy_bindings := Map.empty\<rparr>"

definition disable_proxy :: "string \<Rightarrow> proxy_manager \<Rightarrow> proxy_manager" where
  "disable_proxy proxy s =
     (if proxy \<in> set (proxies s)
      then s\<lparr>disabled_proxies := insert proxy (disabled_proxies s),
             key_proxy_bindings := unbind_proxy proxy (key_proxy_bindings s)\<rparr>
      else s)"

definition enable_proxy :: "string \<Rightarrow> proxy_manager \<Rightarrow> proxy_manager" where
  "enable_proxy proxy s =
     (if proxy \<in> set (proxies s)
      then s\<lparr>disabled_proxies := disabled_proxies s - {proxy},
             proxy_failure_counts := (proxy_failure_counts s)(proxy \<mapsto> 0)\<rparr>
      else s)"

definition update_last_check_time :: "string \<Rightarrow> nat \<Rightarrow> proxy_manager \<Rightarrow> proxy_manager" where
  "update_last_check_time proxy now s = s\<lparr>last_check_time := (last_check_time s)(proxy \<mapsto> now)\<rparr>"

definition unbind_key_from_proxy :: "string \<Rightarrow> proxy_manager \<Rightarrow> proxy_manager" where
  "unbind_key_from_proxy api_key s =
     (if api_key \<in> dom (key_proxy_bindings s)
      then s\<lparr>key_proxy_bindings := (key_proxy_bindings s)(api_key := None)\<rparr>
      else s)"

text \<open>
  The module function \<open>reload_proxy_manager\<close> on an existing instance: reload the
  list, then take the new threshold from the settings.
\<close>

definition reload_proxy_manager :: "string list \<Rightarrow> int \<Rightarrow> proxy_manager \<Rightarrow> proxy_manager" where
  "reload_proxy_manager settings_PROXIES settings_PROXY_MAX_FAILURES s =
     (reload_proxies settings_PROXIES s)\<lparr>proxy_MAX_FAILURES := settings_PROXY_MAX_FAILURES\<rparr>"

text \<open>Every operation that touches the state of a ProxyManager, as one step.\<close>

datatype proxy_op =
    Reload_proxies "string list"
  | Get_proxy_for_key bool nat string
  | Record_proxy_failure string
  | Record_proxy_success string
  | Reset_proxy string
  | Reset_all_proxies
  | Disable_proxy string
  | Enable_proxy string
  | Update_last_check_time string nat
  | Unbind_key_from_proxy string
  | Reload_proxy_manager "string list" int

fun proxy_step :: "(string \<Rightarrow> int) \<Rightarrow> proxy_op \<Rightarrow> proxy_manager \<Rightarrow> proxy_manager" where
  "proxy_step hash (Reload_proxies ps) s = reload_proxies ps s"
| "proxy_step hash (Get_proxy_for_key use_hash rnd k) s = snd (get_proxy_for_key hash use_hash rnd k s)"
| "proxy_step hash (Record_proxy_failure p) s = snd (record_proxy_failure p s)"
| "proxy_step hash (Record_proxy_success p) s = record_proxy_success p s"
| "proxy_step hash (Reset_proxy p) s = reset_proxy p s"
| "proxy_step hash Reset_all_proxies s = reset_all_proxies s"
| "proxy_step hash (Disable_proxy p) s = disable_proxy p s"
| "proxy_step hash (Enable_proxy p) s = enable_proxy p s"
| "proxy_step hash (Update_last_check_time p now) s = update_last_check_time p now s"
| "proxy_step hash (Unbind_key_from_proxy k) s = unbind_key_from_proxy k s"
| "proxy_step hash (Reload_proxy_manager ps mf) s = reload_proxy_manager ps mf s"

text \<open>A proxy is available when it is in the list and not disabled.\<close>

definition is_available :: "proxy_manager \<Rightarrow> string \<Rightarrow> bool" where
  "is_available s p = (p \<in> set (get_available_proxies s))"

text \<open>\<open>p\<close> is available after each operation of the run.\<close>

fun remains_available :: "(string \<Rightarrow> int) \<Rightarrow> string \<Rightarrow> proxy_op list \<Rightarrow> proxy_manager \<Rightarrow> bool" where
  "remains_available hash p [] s = True"
| "remains_available hash p (operation # ops) s =
     (is_available (proxy_step hash operation s) p
      \<and> remains_available hash p ops (proxy_step hash operation s))"

text \<open>The operations that clear the binding of key \<open>k\<close> whatever its proxy.\<close>

fun clears_binding :: "string \<Rightarrow> proxy_op \<Rightarrow> bool" where
  "clears_binding k Reset_all_proxies = True"
| "clears_binding k (Unbind_key_from_proxy k') = (k' = k)"
| "clears_binding k _ = False"

text \<open>No entry of the binding map has a disabled proxy as its value.\<close>

definition no_binding_to_disabled :: "proxy_manager \<Rightarrow> bool" where
  "no_binding_to_disabled s =
     (\<forall>k x. key_proxy_bindings s k = Some x \<longrightarrow> x \<notin> disabled_proxies s)"

section \<open>Streaming chat completion\<close>

text \<open>
  What the upstream does with one streaming request: the connection fails with an
  exception, or a response arrives with a status code, the text of its body (read only
  when the status is not 200), the lines \<open>aiter_lines\<close> delivers, and the exception
  that interrupts the line iterator after those lines, if any.
\<close>

datatype upstream = ConnectError exc | Response int string "string list" "exc option"

text \<open>
  The trace of a generator run to its end: the items yielded in order, the exception
  that ended it (\<open>None\<close> when it returned), the upstream requests issued with the key
  of each and the response it got, the key manager left behind and the log records
  written.
\<close>

datatype log_record =
    Error_log string pyval pyval
  | Request_log string bool pyval

record 'm stream_run =
  yielded :: "string list"
  raised :: "exc option"
  requests :: "(string \<times> upstream) list"
  manager :: 'm
  logs :: "log_record list"

text \<open>A run that goes on after an attempt: the attempt's output and records come first.\<close>

definition then_run ::
  "string list \<Rightarrow> (string \<times> upstream) \<Rightarrow> log_record list \<Rightarrow> 'm stream_run \<Rightarrow> 'm stream_run" where
  "then_run out request written r =
     r\<lparr>yielded := out @ yielded r, requests := request # requests r, logs := written @ logs r\<rparr>"

subsection \<open>ProviderService (app/service/provider/provider_service.py)\<close>

text \<open>
  The \<open>try\<close> block of one attempt: what it yields and the exception it ends with.
  A status other than 200 raises \<open>Exception(status_code, error_msg)\<close> before any line;
  otherwise every non-empty line is yielded with a newline appended.
\<close>

fun provider_attempt :: "upstream \<Rightarrow> string list \<times> exc option" where
  "provider_attempt (ConnectError e) = ([], Some e)"
| "provider_attempt (Response status_code error_msg lines failure) =
     (if status_code \<noteq> 200 then ([], Some (Exception [IntV status_code, StrV error_msg]))
      else (map (\<lambda>line. line @ newline) (filter (\<lambda>line. line \<noteq> []) lines), failure))"

text \<open>
  The \<open>while retries < max_retries\<close> loop of \<open>_handle_stream_completion\<close>.
  \<open>upstream n key\<close> is the answer to the \<open>n\<close>-th request of the call, made with \<open>key\<close>.
  The result is \<open>None\<close> when \<open>handle_api_failure\<close> does not return.
\<close>

function provider_stream_loop ::
  "(exc \<Rightarrow> string) \<Rightarrow> (nat \<Rightarrow> string \<Rightarrow> upstream) \<Rightarrow> int \<Rightarrow> int
     \<Rightarrow> int \<Rightarrow> string \<Rightarrow> nat \<Rightarrow> key_manager \<Rightarrow> key_manager stream_run option" where
  "provider_stream_loop str upstream max_retries settings_MAX_RETRIES retries final_api_key n km =
     (if retries < max_retries then
        (let current_attempt_key = final_api_key;
             response = upstream n current_attempt_key;
             out = fst (provider_attempt response)
         in case snd (provider_attempt response) of
              None \<Rightarrow>
                Some \<lparr>yielded = out, raised = None,
                      requests = [(current_attempt_key, response)], manager = km,
                      logs = [Request_log current_attempt_key True (IntV 200)]\<rparr>
            | Some e \<Rightarrow>
                (let retries1 = retries + 1;
                     status_code = status_of e;
                     written = [Error_log current_attempt_key (message_of str e) status_code,
                                Request_log current_attempt_key False status_code]
                 in case handle_api_failure settings_MAX_RETRIES current_attempt_key retries1 km of
                      None \<Rightarrow> None
                    | Some (Inl e') \<Rightarrow>
                        Some \<lparr>yielded = out, raised = Some e',
                              requests = [(current_attempt_key, response)], manager = km,
                              logs = written\<rparr>
                    | Some (Inr (new_api_key, km1)) \<Rightarrow>
                        if new_api_key = [] then
                          Some \<lparr>yielded = out, raised = Some e,
                                requests = [(current_attempt_key, response)], manager = km1,
                                logs = written\<rparr>
                        else if retries1 \<ge> max_retries then
                          Some \<lparr>yielded = out, raised = Some e,
                                requests = [(current_attempt_key, response)], manager = km1,
                                logs = written\<rparr>
                        else
                          map_option (then_run out (current_attempt_key, response) written)
                            (provider_stream_loop str upstream max_retries settings_MAX_RETRIES
                               retries1
                               (if new_api_key \<noteq> current_attempt_key then new_api_key
                                else final_api_key)
                               (n + 1) km1)))
      else Some \<lparr>yielded = [], raised = None, requests = [], manager = km, logs = []\<rparr>)"
  by pat_completeness auto
termination
  by (relation "measure (\<lambda>(str, upstream, max_retries, settings_MAX_RETRIES, retries, rest).
                   nat (max_retries - retries))") auto

definition provider_handle_stream_completion ::
  "(exc \<Rightarrow> string) \<Rightarrow> (nat \<Rightarrow> string \<Rightarrow> upstream) \<Rightarrow> provider_config \<Rightarrow> int
     \<Rightarrow> string \<Rightarrow> key_manager \<Rightarrow> key_manager stream_run option" where
  "provider_handle_stream_completion str upstream config settings_MAX_RETRIES api_key km =
     provider_stream_loop str upstream (cfg_max_retries config) settings_MAX_RETRIES 0 api_key 0 km"

subsection \<open>OpenAICompatiableService (app/service/openai_compatiable/openai_compatiable_service.py)\<close>

text \<open>
  \<open>OpenaiApiClient.stream_generate_content\<close> raises before any line on a status other
  than 200 and passes every line on otherwise; the service yields the lines that start
  with \<open>data:\<close>, two newlines appended.
\<close>

fun compat_attempt :: "upstream \<Rightarrow> string list \<times> exc option" where
  "compat_attempt (ConnectError e) = ([], Some e)"
| "compat_attempt (Response status_code error_msg lines failure) =
     (if status_code \<noteq> 200 then ([], Some (Exception [IntV status_code, StrV error_msg]))
      else (map (\<lambda>line. line @ newline @ newline) (filter (prefix ''data:'') lines), failure))"

text \<open>
  The service may have no key manager (\<open>None\<close>): then the first failure leaves the
  loop by \<open>break\<close>. The request log of a failed attempt is written with \<open>final_api_key\<close>,
  the key already switched to.
\<close>

function compat_stream_loop ::
  "(exc \<Rightarrow> string) \<Rightarrow> (nat \<Rightarrow> string \<Rightarrow> upstream) \<Rightarrow> int
     \<Rightarrow> int \<Rightarrow> string \<Rightarrow> nat \<Rightarrow> key_manager option \<Rightarrow> key_manager option stream_run option" where
  "compat_stream_loop str upstream max_retries retries final_api_key n key_manager =
     (if retries < max_retries then
        (let current_attempt_key = final_api_key;
             response = upstream n current_attempt_key;
             out = fst (compat_attempt response)
         in case snd (compat_attempt response) of
              None \<Rightarrow>
                Some \<lparr>yielded = out, raised = None,
                      requests = [(current_attempt_key, response)], manager = key_manager,
                      logs = [Request_log final_api_key True (IntV 200)]\<rparr>
            | Some e \<Rightarrow>
                (let retries1 = retries + 1;
                     status_code = status_of e;
                     error_log = Error_log current_attempt_key (message_of str e) status_code
                 in case key_manager of
                      None \<Rightarrow>
                        Some \<lparr>yielded = out, raised = None,
                              requests = [(current_attempt_key, response)], manager = None,
                              logs = [error_log, Request_log final_api_key False status_code]\<rparr>
                    | Some km \<Rightarrow>
                        (case handle_api_failure max_retries current_attempt_key retries1 km of
                           None \<Rightarrow> None
                         | Some (Inl e') \<Rightarrow>
                             Some \<lparr>yielded = out, raised = Some e',
                                   requests = [(current_attempt_key, response)],
                                   manager = Some km,
                                   logs = [error_log, Request_log final_api_key False status_code]\<rparr>
                         | Some (Inr (new_api_key, km1)) \<Rightarrow>
                             if new_api_key = [] then
                               Some \<lparr>yielded = out, raised = Some e,
                                     requests = [(current_attempt_key, response)],
                                     manager = Some km1,
                                     logs = [error_log,
                                             Request_log final_api_key False status_code]\<rparr>
                             else if retries1 \<ge> max_retries then
                               Some \<lparr>yielded = out, raised = Some e,
                                     requests = [(current_attempt_key, response)],
                                     manager = Some km1,
                                     logs = [error_log,
                                             Request_log new_api_key False status_code]\<rparr>
                             else
                               map_option
                                 (then_run out (current_attempt_key, response)
                                    [error_log, Request_log new_api_key False status_code])
                                 (compat_stream_loop str upstream max_retries retries1
                                    new_api_key (n + 1) (Some km1)))))
      else Some \<lparr>yielded = [], raised = None, requests = [], manager = key_manager, logs = []\<rparr>)"
  by pat_completeness auto
termination
  by (relation "measure (\<lambda>(str, upstream, max_retries, retries, rest).
                   nat (max_retries - retries))") auto

definition compat_handle_stream_completion ::
  "(exc \<Rightarrow> string) \<Rightarrow> (nat \<Rightarrow> string \<Rightarrow> upstream) \<Rightarrow> int
     \<Rightarrow> string \<Rightarrow> key_manager option \<Rightarrow> key_manager option stream_run option" where
  "compat_handle_stream_completion str upstream settings_MAX_RETRIES api_key key_manager =
     compat_stream_loop str upstream settings_MAX_RETRIES 0 api_key 0 key_manager"

section \<open>The common stream handler of the routers\<close>

text \<open>
  \<open>_handle_chat_completion\<close> (app/router/provider_routes.py) and \<open>chat_completion\<close>
  (app/router/openai_routes.py, app/router/openai_compatiable_routes.py) treat the value
  of \<open>create_chat_completion\<close> alike. For a streaming request that value is a generator,
  given here by the items it yields and the exception that ends it; otherwise it is the
  parsed completion. A response is a streaming response (the chunks of its body, the
  exception that interrupts the body, the media type) or a JSON response (content and
  status code); \<open>None\<close> is the handler returning without a \<open>return\<close> statement.
\<close>

datatype json = JVal pyval | JObj "(string \<times> json) list"

datatype raw_response = Generator "string list" "exc option" | Completion json

datatype response =
    StreamingResponse "string list" "exc option" string
  | JSONResponse json pyval
  | Returned json

text \<open>
  \<open>__anext__\<close> on a generator with no item left raises \<open>StopAsyncIteration\<close> when the
  generator returned and the generator's exception otherwise. Every item is a string,
  so \<open>isinstance(first_chunk, str)\<close> holds.
\<close>

definition handle_chat_completion :: "(exc \<Rightarrow> string) \<Rightarrow> raw_response \<Rightarrow> response option" where
  "handle_chat_completion str raw =
     (case raw of
        Completion j \<Rightarrow> Some (Returned j)
      | Generator items ending \<Rightarrow>
          (case items of
             [] \<Rightarrow>
               (case ending of
                  None \<Rightarrow> Some (StreamingResponse [] None ''text/event-stream'')
                | Some e \<Rightarrow>
                    let error_code = status_of e;
                        error_msg = message_of str e
                    in Some (JSONResponse
                               (JObj [(''error'', JObj [(''code'', JVal error_code),
                                                        (''message'', JVal error_msg)])])
                               error_code))
           | first_chunk # rest \<Rightarrow>
               if prefix ''data:'' first_chunk
               then Some (StreamingResponse (first_chunk # rest) ending ''text/event-stream'')
               else None))"

section \<open>The models request of ProviderService\<close>

text \<open>
  The choice of the key in \<open>get_models\<close>: the argument, else the configured
  \<open>model_request_key\<close>, else \<open>get_first_valid_key\<close>; an empty result raises
  \<open>Exception(500, ...)\<close>, whose message is passed as \<open>no_key_message\<close>.
\<close>

definition get_models_key ::
  "string \<Rightarrow> string option \<Rightarrow> provider_config \<Rightarrow> key_manager \<Rightarrow> exc + string" where
  "get_models_key no_key_message api_key config km =
     (let configured =
            (if cfg_model_request_key config \<noteq> [] then cfg_model_request_key config
             else get_first_valid_key km);
          api_key1 =
            (case api_key of
               None \<Rightarrow> configured
             | Some given \<Rightarrow> if given = [] then configured else given)
      in if api_key1 = [] then Inl (Exception [IntV 500, StrV no_key_message])
         else Inr api_key1)"

section \<open>Properties of a stream trace\<close>

text \<open>
  With \<open>attempt\<close> giving what one request yields and how it ends: the items of the run
  are the outputs of its requests in order, every request but the last ended with an
  exception, and the \<open>i\<close>-th request got the upstream's \<open>(n + i)\<close>-th answer.
\<close>

definition stream_trace_ok ::
  "(upstream \<Rightarrow> string list \<times> exc option) \<Rightarrow> (nat \<Rightarrow> string \<Rightarrow> upstream) \<Rightarrow> nat
     \<Rightarrow> 'm stream_run \<Rightarrow> bool" where
  "stream_trace_ok attempt upstream n r =
     (yielded r = concat (map (\<lambda>q. fst (attempt (snd q))) (requests r))
      \<and> (\<forall>q \<in> set (butlast (requests r)). snd (attempt (snd q)) \<noteq> None)
      \<and> (\<forall>i < length (requests r). snd (requests r ! i) = upstream (n + i) (fst (requests r ! i))))"

text \<open>The output of the last request of a run, nothing when no request was made.\<close>

definition last_output :: "(upstream \<Rightarrow> string list \<times> exc option) \<Rightarrow> 'm stream_run \<Rightarrow> string list" where
  "last_output attempt r =
     (case requests r of [] \<Rightarrow> [] | _ # _ \<Rightarrow> fst (attempt (snd (last (requests r)))))"

section \<open>Auxiliary notions and example configurations\<close>

text \<open>
  What a key manager registered by a reload looks like, given the managers before the
  reload: it belongs to an enabled configuration with keys, holds a count for exactly
  the keys of that configuration, and each count is the one the provider of the same
  name had for the key before (\<open>get_fail_count\<close> is zero for a key it did not have,
  and there is nothing to take over when the provider is new).
\<close>

definition reloaded_from ::
  "(string \<rightharpoonup> key_manager) \<Rightarrow> provider_config \<Rightarrow> key_manager \<Rightarrow> bool" where
  "reloaded_from old_managers config m =
     (cfg_enabled config \<and> cfg_api_keys config \<noteq> []
      \<and> api_keys m = cfg_api_keys config
      \<and> MAX_FAILURES m = cfg_max_failures config
      \<and> (\<forall>key. key \<notin> set (cfg_api_keys config) \<longrightarrow> key_failure_counts m key = None)
      \<and> (\<forall>key \<in> set (cfg_api_keys config).
            key_failure_counts m key =
              Some (case old_managers (cfg_name config) of
                      Some old \<Rightarrow> get_fail_count old key
                    | None \<Rightarrow> 0)))"

text \<open>A provider \<open>A\<close> with two keys and two attempts per streaming call.\<close>

definition example_config :: provider_config where
  "example_config =
     \<lparr>cfg_name = ''A'', cfg_path = ''a'', cfg_base_url = ''https://upstream.example/v1'',
      cfg_api_keys = [''k1'', ''k2''], cfg_model_request_key = [], cfg_max_failures = 3,
      cfg_max_retries = 2, cfg_enabled = True\<rparr>"

text \<open>Its key manager after \<open>k1\<close> has been handed out for the call.\<close>

definition example_manager :: key_manager where
  "example_manager = (KeyManager 3 [''k1'', ''k2''])\<lparr>key_cycle := 1\<rparr>"

text \<open>
  An upstream whose first response breaks after one line and whose second response
  is complete.
\<close>

definition interrupted_upstream :: "nat \<Rightarrow> string \<Rightarrow> upstream" where
  "interrupted_upstream n key =
     (if n = 0 then Response 200 [] [''data: a''] (Some (Exception [StrV ''peer closed connection'']))
      else Response 200 [] [''data: a'', ''data: b''] None)"

text \<open>An upstream that rejects \<open>k1\<close> with 401 and streams two events for any other key.\<close>

definition rotation_upstream :: "nat \<Rightarrow> string \<Rightarrow> upstream" where
  "rotation_upstream n key =
     (if key = ''k1'' then Response 401 ''invalid api key'' [] None
      else Response 200 [] [''data: a'', [], ''data: [DONE]''] None)"

text \<open>An upstream that rejects every request.\<close>

definition rejecting_upstream :: "nat \<Rightarrow> string \<Rightarrow> upstream" where
  "rejecting_upstream n key = Response 401 ''invalid api key'' [] None"

text \<open>A pool whose keys have all reached the threshold, the cursor on the second key.\<close>

definition all_invalid_manager :: key_manager where
  "all_invalid_manager =
     (KeyManager 1 [''a'', ''b''])
       \<lparr>key_cycle := 1, key_failure_counts := [''a'' \<mapsto> 1, ''b'' \<mapsto> 1]\<rparr>"

text \<open>
  A pool that names \<open>a\<close> twice: \<open>a\<close> and \<open>b\<close> are at the threshold, \<open>c\<close> is not.
\<close>

definition duplicate_manager :: key_manager where
  "duplicate_manager =
     (KeyManager 1 [''a'', ''b'', ''a'', ''c''])
       \<lparr>key_failure_counts := [''a'' \<mapsto> 1, ''b'' \<mapsto> 1, ''c'' \<mapsto> 0]\<rparr>"

text \<open>A pool of \<open>k1\<close> and \<open>k2\<close>, both at or above the threshold of one failure.\<close>

definition fallback_manager :: key_manager where
  "fallback_manager =
     (KeyManager 1 [''k1'', ''k2''])\<lparr>key_failure_counts := [''k1'' \<mapsto> 1, ''k2'' \<mapsto> 2]\<rparr>"

text \<open>The registry before a reload: provider \<open>A\<close> with counts 2 and 1.\<close>

definition registry_before_reload :: provider_key_manager where
  "registry_before_reload =
     \<lparr>managers = [''A'' \<mapsto> (KeyManager 3 [''k1'', ''k2''])
                               \<lparr>key_failure_counts := [''k1'' \<mapsto> 2, ''k2'' \<mapsto> 1]\<rparr>],
      configs = [''A'' \<mapsto> example_config]\<rparr>"

text \<open>The module state before a reload: the singleton holds \<open>k1\<close> and \<open>k2\<close>.\<close>

definition singleton_before_reload :: key_manager_globals where
  "singleton_before_reload =
     \<lparr>singleton_instance = Some fallback_manager, preserved_failure_counts = None,
      preserved_old_api_keys_for_reset = None, preserved_next_key_in_cycle = None\<rparr>"

definition config_after_reload :: provider_config where
  "config_after_reload = example_config\<lparr>cfg_api_keys := [''k1'', ''k3'']\<rparr>"

text \<open>Two proxies, threshold one, the key \<open>k\<close> bound to the second.\<close>

definition bound_manager :: proxy_manager where
  "bound_manager =
     (ProxyManager 1 [''p1'', ''p2''])\<lparr>key_proxy_bindings := [''k'' \<mapsto> ''p2'']\<rparr>"

text \<open>Two proxies, the first disabled by hand, and the state after \<open>k\<close> asked for a proxy.\<close>

definition first_disabled_manager :: proxy_manager where
  "first_disabled_manager = disable_proxy ''p1'' (ProxyManager 3 [''p1'', ''p2''])"

definition after_first_call :: proxy_manager where
  "after_first_call = snd (get_proxy_for_key (\<lambda>_. 0) True 0 ''k'' first_disabled_manager)"

definition quiet_operations :: "proxy_op list" where
  "quiet_operations =
     [Record_proxy_failure ''p1'', Get_proxy_for_key True 0 ''j'', Enable_proxy ''p1'',
      Disable_proxy ''p1'', Reload_proxies [''p2'', ''p3'']]"

section \<open>KeyManager: the rotation loop returns\<close>

declare next_working_key_loop.simps [code]

text \<open>The loop body with \<open>get_next_key\<close> unfolded, one test per line.\<close>

lemma next_working_key_loop_unfold:
  "next_working_key_loop initial_key current_key s =
     (if is_key_valid s current_key then Some (Inr (current_key, s))
      else if api_keys s = [] then Some (Inl StopIteration)
      else if api_keys s ! (key_cycle s mod length (api_keys s)) = initial_key
           then Some (Inr (initial_key, s\<lparr>key_cycle := key_cycle s + 1\<rparr>))
      else next_working_key_loop initial_key
             (api_keys s ! (key_cycle s mod length (api_keys s)))
             (s\<lparr>key_cycle := key_cycle s + 1\<rparr>))"
  by (subst next_working_key_loop.simps) (simp add: get_next_key_def)

lemma is_key_valid_key_cycle [simp]:
  "is_key_valid (s\<lparr>key_cycle := c\<rparr>) k = is_key_valid s k"
  by (simp add: is_key_valid_def get_fail_count_def)

text \<open>
  The loop returns as soon as the cycle comes back to the initial key, which it does
  within \<open>d\<close> draws when the key \<open>d\<close> places ahead of the cursor is the initial key.
  Only the cursor of the manager changes, and the key returned is the initial key or a
  valid key that the loop has looked at.
\<close>

lemma next_working_key_loop_result:
  assumes "api_keys s \<noteq> []"
    and "api_keys s ! ((key_cycle s + d) mod length (api_keys s)) = initial_key"
  shows "\<exists>k c. next_working_key_loop initial_key current_key s
                 = Some (Inr (k, s\<lparr>key_cycle := c\<rparr>))
               \<and> (k = initial_key
                    \<or> is_key_valid s k \<and> (k = current_key \<or> k \<in> set (api_keys s)))"
  using assms
proof (induction d arbitrary: s current_key)
  case 0
  show ?case
  proof (cases "is_key_valid s current_key")
    case True
    have "next_working_key_loop initial_key current_key s
            = Some (Inr (current_key, s\<lparr>key_cycle := key_cycle s\<rparr>))"
      using True by (subst next_working_key_loop_unfold) simp
    then show ?thesis using True by blast
  next
    case False
    have "next_working_key_loop initial_key current_key s
            = Some (Inr (initial_key, s\<lparr>key_cycle := key_cycle s + 1\<rparr>))"
      using False "0.prems" by (subst next_working_key_loop_unfold) simp
    then show ?thesis by blast
  qed
next
  case (Suc d)
  let ?next = "api_keys s ! (key_cycle s mod length (api_keys s))"
  let ?s' = "s\<lparr>key_cycle := key_cycle s + 1\<rparr>"
  show ?case
  proof (cases "is_key_valid s current_key")
    case True
    have "next_working_key_loop initial_key current_key s
            = Some (Inr (current_key, s\<lparr>key_cycle := key_cycle s\<rparr>))"
      using True by (subst next_working_key_loop_unfold) simp
    then show ?thesis using True by blast
  next
    case False
    show ?thesis
    proof (cases "?next = initial_key")
      case True
      have "next_working_key_loop initial_key current_key s
              = Some (Inr (initial_key, s\<lparr>key_cycle := key_cycle s + 1\<rparr>))"
        using False True Suc.prems by (subst next_working_key_loop_unfold) simp
      then show ?thesis by blast
    next
      case nomatch: False
      have step: "next_working_key_loop initial_key current_key s
              = next_working_key_loop initial_key ?next ?s'"
        using False nomatch Suc.prems by (subst next_working_key_loop_unfold) simp
      have mem: "?next \<in> set (api_keys s)" using Suc.prems(1) by simp
      have "\<exists>k c. next_working_key_loop initial_key ?next ?s'
                 = Some (Inr (k, ?s'\<lparr>key_cycle := c\<rparr>))
               \<and> (k = initial_key
                    \<or> is_key_valid ?s' k \<and> (k = ?next \<or> k \<in> set (api_keys ?s')))"
        using Suc.prems by (intro Suc.IH) simp_all
      then show ?thesis using step mem by auto
    qed
  qed
qed

lemma get_next_working_key_returns:
  "\<exists>k c. get_next_working_key s = Some (Inr (k, s\<lparr>key_cycle := c\<rparr>))"
proof (cases "api_keys s = []")
  case True
  have "get_next_working_key s = Some (Inr ([], s\<lparr>key_cycle := key_cycle s\<rparr>))"
    using True by (simp add: get_next_working_key_def)
  then show ?thesis by blast
next
  case False
  let ?n = "length (api_keys s)"
  let ?initial = "api_keys s ! (key_cycle s mod ?n)"
  let ?s' = "s\<lparr>key_cycle := key_cycle s + 1\<rparr>"
  have n: "0 < ?n" using False by simp
  have "(key_cycle ?s' + (?n - 1)) mod ?n = key_cycle s mod ?n"
    using n by (simp add: Suc_leI)
  then have "api_keys ?s' ! ((key_cycle ?s' + (?n - 1)) mod length (api_keys ?s')) = ?initial"
    by simp
  then have "\<exists>k c. next_working_key_loop ?initial ?initial ?s'
                 = Some (Inr (k, ?s'\<lparr>key_cycle := c\<rparr>))"
    using False next_working_key_loop_result [of ?s' "?n - 1" ?initial ?initial] by auto
  moreover have "get_next_working_key s = next_working_key_loop ?initial ?initial ?s'"
    using False by (simp add: get_next_working_key_def get_next_key_def)
  ultimately show ?thesis by auto
qed

lemma handle_api_failure_returns:
  "\<exists>k km1. handle_api_failure settings_MAX_RETRIES api_key retries s = Some (Inr (k, km1))"
proof (cases "retries < settings_MAX_RETRIES")
  case True
  then show ?thesis
    using get_next_working_key_returns
    by (simp add: handle_api_failure_def Let_def) blast
next
  case False
  then show ?thesis by (simp add: handle_api_failure_def Let_def)
qed

text \<open>
  When every key of the pool is invalid, the key returned is the one under the cursor
  at the call.
\<close>

lemma get_next_working_key_fallback:
  assumes "api_keys s \<noteq> []" "\<forall>k \<in> set (api_keys s). \<not> is_key_valid s k"
  shows "\<exists>c. get_next_working_key s
           = Some (Inr (api_keys s ! (key_cycle s mod length (api_keys s)), s\<lparr>key_cycle := c\<rparr>))"
proof -
  let ?n = "length (api_keys s)"
  let ?initial = "api_keys s ! (key_cycle s mod ?n)"
  let ?s' = "s\<lparr>key_cycle := key_cycle s + 1\<rparr>"
  have n: "0 < ?n" using assms(1) by simp
  have "(key_cycle ?s' + (?n - 1)) mod ?n = key_cycle s mod ?n"
    using n by (simp add: Suc_leI)
  then have "api_keys ?s' ! ((key_cycle ?s' + (?n - 1)) mod length (api_keys ?s')) = ?initial"
    by simp
  then obtain k c where k: "next_working_key_loop ?initial ?initial ?s'
                 = Some (Inr (k, ?s'\<lparr>key_cycle := c\<rparr>))"
     and "k = ?initial \<or> is_key_valid ?s' k \<and> (k = ?initial \<or> k \<in> set (api_keys ?s'))"
    using assms(1) next_working_key_loop_result [of ?s' "?n - 1" ?initial ?initial] by auto
  moreover have "?initial \<in> set (api_keys s)" using n by simp
  ultimately have "k = ?initial" using assms(2) by auto
  moreover have "get_next_working_key s = next_working_key_loop ?initial ?initial ?s'"
    using assms(1) by (simp add: get_next_working_key_def get_next_key_def)
  ultimately show ?thesis using k by auto
qed

text \<open>
  Positions on the ring: every index is reached within one turn, and the cursor does
  not come back to its start before a full turn.
\<close>

lemma ring_offset:
  fixes c0 v n :: nat
  assumes "v < n"
  shows "\<exists>i<n. (c0 + i) mod n = v"
proof -
  let ?i = "(v + (n - c0 mod n)) mod n"
  have lt: "c0 mod n < n" using assms by simp
  have "?i < n" using assms by simp
  moreover have "(c0 + ?i) mod n = v"
  proof -
    have "(c0 + ?i) mod n = (c0 mod n + (v + (n - c0 mod n))) mod n"
      by (simp add: mod_add_eq mod_add_right_eq mod_add_left_eq)
    also have "c0 mod n + (v + (n - c0 mod n)) = v + n"
      using lt by arith
    also have "(v + n) mod n = v" using assms by simp
    finally show ?thesis .
  qed
  ultimately show ?thesis by blast
qed

lemma ring_no_early_return:
  fixes c0 d n :: nat
  assumes "0 < d" "d < n"
  shows "(c0 + d) mod n \<noteq> c0 mod n"
proof
  assume "(c0 + d) mod n = c0 mod n"
  then have "n dvd (c0 + d) - c0" by (simp add: mod_eq_dvd_iff_nat)
  then have "n dvd d" by simp
  then show False using assms by (simp add: nat_dvd_not_less)
qed

text \<open>
  On a pool without repeated keys the loop finds a valid key when there is one: \<open>j\<close>
  keys after the initial one have been drawn, all keys before the current one were
  invalid, and the cursor stays within one turn of its start \<open>c0\<close>.
\<close>

lemma next_working_key_loop_valid:
  assumes "api_keys s \<noteq> []" "distinct (api_keys s)"
    and "key_cycle s = c0 + 1 + j" "j < length (api_keys s)"
    and "initial_key = api_keys s ! (c0 mod length (api_keys s))"
    and "current_key = api_keys s ! ((c0 + j) mod length (api_keys s))"
    and "\<forall>i < j. \<not> is_key_valid s (api_keys s ! ((c0 + i) mod length (api_keys s)))"
    and "\<exists>i < length (api_keys s). is_key_valid s (api_keys s ! ((c0 + i) mod length (api_keys s)))"
  shows "\<exists>k c. next_working_key_loop initial_key current_key s
                 = Some (Inr (k, s\<lparr>key_cycle := c\<rparr>))
               \<and> is_key_valid s k \<and> k \<in> set (api_keys s) \<and> c \<le> c0 + length (api_keys s)"
  using assms
proof (induction "length (api_keys s) - j" arbitrary: j s current_key)
  case 0
  then show ?case by simp
next
  case (Suc m)
  let ?n = "length (api_keys s)"
  have n: "0 < ?n" using Suc.prems(1) by simp
  show ?case
  proof (cases "is_key_valid s current_key")
    case True
    have "next_working_key_loop initial_key current_key s
            = Some (Inr (current_key, s\<lparr>key_cycle := key_cycle s\<rparr>))"
      using True by (subst next_working_key_loop_unfold) simp
    moreover have "current_key \<in> set (api_keys s)" using Suc.prems(6) n by simp
    moreover have "key_cycle s \<le> c0 + ?n" using Suc.prems(3,4) by simp
    ultimately show ?thesis using True by blast
  next
    case False
    have inv: "\<forall>i < Suc j. \<not> is_key_valid s (api_keys s ! ((c0 + i) mod ?n))"
      using False Suc.prems(6,7) by (auto simp: less_Suc_eq)
    obtain v where v: "v < ?n" "is_key_valid s (api_keys s ! ((c0 + v) mod ?n))"
      using Suc.prems(8) by blast
    have "\<not> v < Suc j" using inv v(2) by blast
    then have j': "Suc j < ?n" using v(1) by simp
    let ?next = "api_keys s ! (key_cycle s mod ?n)"
    let ?s' = "s\<lparr>key_cycle := key_cycle s + 1\<rparr>"
    have idx: "key_cycle s mod ?n \<noteq> c0 mod ?n"
      using ring_no_early_return [of "Suc j" ?n c0] j' Suc.prems(3) by simp
    have nomatch: "?next \<noteq> initial_key"
      using idx Suc.prems(2,5) n by (simp add: nth_eq_iff_index_eq)
    have step: "next_working_key_loop initial_key current_key s
              = next_working_key_loop initial_key ?next ?s'"
      using False nomatch Suc.prems(1) by (subst next_working_key_loop_unfold) simp
    have "\<exists>k c. next_working_key_loop initial_key ?next ?s'
                 = Some (Inr (k, ?s'\<lparr>key_cycle := c\<rparr>))
               \<and> is_key_valid ?s' k \<and> k \<in> set (api_keys ?s')
               \<and> c \<le> c0 + length (api_keys ?s')"
    proof (rule Suc.hyps(1) [of ?s' "Suc j"])
      show "m = length (api_keys ?s') - Suc j" using Suc.hyps(2) by simp
      show "api_keys ?s' \<noteq> []" using Suc.prems(1) by simp
      show "distinct (api_keys ?s')" using Suc.prems(2) by simp
      show "key_cycle ?s' = c0 + 1 + Suc j" using Suc.prems(3) by simp
      show "Suc j < length (api_keys ?s')" using j' by simp
      show "initial_key = api_keys ?s' ! (c0 mod length (api_keys ?s'))"
        using Suc.prems(5) by simp
      show "?next = api_keys ?s' ! ((c0 + Suc j) mod length (api_keys ?s'))"
        using Suc.prems(3) by simp
      show "\<forall>i < Suc j. \<not> is_key_valid ?s'
               (api_keys ?s' ! ((c0 + i) mod length (api_keys ?s')))"
        using inv by simp
      show "\<exists>i < length (api_keys ?s'). is_key_valid ?s'
               (api_keys ?s' ! ((c0 + i) mod length (api_keys ?s')))"
        using v by auto
    qed
    then show ?thesis using step by auto
  qed
qed

lemma get_next_working_key_valid:
  assumes "distinct (api_keys s)" "\<exists>key \<in> set (api_keys s). is_key_valid s key"
  shows "\<exists>k c. get_next_working_key s = Some (Inr (k, s\<lparr>key_cycle := c\<rparr>))
               \<and> is_key_valid s k \<and> k \<in> set (api_keys s)
               \<and> c \<le> key_cycle s + length (api_keys s)"
proof -
  let ?n = "length (api_keys s)"
  let ?c0 = "key_cycle s"
  let ?initial = "api_keys s ! (?c0 mod ?n)"
  let ?s' = "s\<lparr>key_cycle := ?c0 + 1\<rparr>"
  have ne: "api_keys s \<noteq> []" using assms(2) by auto
  obtain key where key: "key \<in> set (api_keys s)" "is_key_valid s key" using assms(2) by blast
  then obtain v where v: "v < ?n" "api_keys s ! v = key" by (auto simp: in_set_conv_nth)
  obtain i where i: "i < ?n" "(?c0 + i) mod ?n = v" using ring_offset [OF v(1)] by blast
  have "\<exists>k c. next_working_key_loop ?initial ?initial ?s'
                 = Some (Inr (k, ?s'\<lparr>key_cycle := c\<rparr>))
               \<and> is_key_valid ?s' k \<and> k \<in> set (api_keys ?s')
               \<and> c \<le> ?c0 + length (api_keys ?s')"
  proof (rule next_working_key_loop_valid [of ?s' ?c0 0])
    show "api_keys ?s' \<noteq> []" using ne by simp
    show "distinct (api_keys ?s')" using assms(1) by simp
    show "key_cycle ?s' = ?c0 + 1 + 0" by simp
    show "0 < length (api_keys ?s')" using ne by simp
    show "?initial = api_keys ?s' ! (?c0 mod length (api_keys ?s'))" by simp
    show "?initial = api_keys ?s' ! ((?c0 + 0) mod length (api_keys ?s'))" by simp
    show "\<forall>i < 0. \<not> is_key_valid ?s' (api_keys ?s' ! ((?c0 + i) mod length (api_keys ?s')))"
      by simp
    show "\<exists>i < length (api_keys ?s'). is_key_valid ?s'
             (api_keys ?s' ! ((?c0 + i) mod length (api_keys ?s')))"
      using i v key(2) by auto
  qed
  moreover have "get_next_working_key s = next_working_key_loop ?initial ?initial ?s'"
    using ne by (simp add: get_next_working_key_def get_next_key_def)
  ultimately show ?thesis by auto
qed

text \<open>The definitions that evaluate a key manager on a concrete pool.\<close>

lemmas key_manager_eval =
  KeyManager_def get_next_key_def get_fail_count_def is_key_valid_def
  get_next_working_key_def next_working_key_loop_unfold handle_api_failure_def
  mod_Suc Let_def

section \<open>KeyManager: failure counts and the fallback key\<close>

lemma map_of_keys:
  "map_of (map (\<lambda>key. (key, f key)) keys) k = (if k \<in> set keys then Some (f k) else None)"
  by (induction keys) auto

text \<open>
  Counts start at zero and are only reset or incremented: none is ever negative.
\<close>

lemma counts_not_negative_key_cycle [simp]:
  "counts_not_negative (s\<lparr>key_cycle := c\<rparr>) = counts_not_negative s"
  by (simp add: counts_not_negative_def)

lemma get_next_working_key_counts:
  assumes "get_next_working_key s = Some (Inr (k, s'))"
  shows "key_failure_counts s' = key_failure_counts s"
  using assms get_next_working_key_returns [of s] by auto

lemma handle_api_failure_not_negative:
  assumes "handle_api_failure settings_MAX_RETRIES key retries s = Some (Inr (k, s'))"
    and "counts_not_negative s"
  shows "counts_not_negative s'"
proof -
  let ?s1 = "case key_failure_counts s key of
               Some c \<Rightarrow> s\<lparr>key_failure_counts := (key_failure_counts s)(key \<mapsto> c + 1)\<rparr>
             | None \<Rightarrow> s"
  have s1: "counts_not_negative ?s1"
    using assms(2) by (auto simp: counts_not_negative_def split: option.splits)
  show ?thesis
  proof (cases "retries < settings_MAX_RETRIES")
    case True
    then have "get_next_working_key ?s1 = Some (Inr (k, s'))"
      using assms(1) by (simp add: handle_api_failure_def Let_def)
    then have "key_failure_counts s' = key_failure_counts ?s1"
      by (rule get_next_working_key_counts)
    then show ?thesis using s1 by (simp add: counts_not_negative_def)
  next
    case False
    then have "s' = ?s1" using assms(1) by (simp add: handle_api_failure_def Let_def)
    then show ?thesis using s1 by simp
  qed
qed

lemma counts_not_negative_step:
  assumes "counts_not_negative s"
  shows "counts_not_negative (key_step settings_MAX_RETRIES operation s)"
proof (cases operation)
  case Get_next_key
  then show ?thesis using assms by (simp add: get_next_key_def)
next
  case Reset_failure_counts
  then show ?thesis by (auto simp: reset_failure_counts_def counts_not_negative_def)
next
  case (Reset_key_failure_count key)
  then show ?thesis using assms
    by (auto simp: reset_key_failure_count_def counts_not_negative_def)
next
  case Get_next_working_key
  obtain k c where "get_next_working_key s = Some (Inr (k, s\<lparr>key_cycle := c\<rparr>))"
    using get_next_working_key_returns by blast
  then show ?thesis using Get_next_working_key assms by simp
next
  case (Handle_api_failure key retries)
  obtain k s' where r: "handle_api_failure settings_MAX_RETRIES key retries s = Some (Inr (k, s'))"
    using handle_api_failure_returns by blast
  then have "counts_not_negative s'" using assms by (rule handle_api_failure_not_negative)
  then show ?thesis using Handle_api_failure r by simp
next
  case (Check_failed_key_failure key)
  then show ?thesis using assms
    by (auto simp: check_failed_key_failure_def counts_not_negative_def split: option.splits)
qed

lemma counts_not_negative_run:
  "counts_not_negative (fold (key_step settings_MAX_RETRIES) ops (KeyManager settings_MAX_FAILURES keys))"
proof -
  have init: "counts_not_negative (KeyManager settings_MAX_FAILURES keys)"
    by (auto simp: counts_not_negative_def KeyManager_def map_of_keys split: if_splits)
  have "counts_not_negative s \<Longrightarrow> counts_not_negative (fold (key_step settings_MAX_RETRIES) ops s)" for s
    by (induction ops arbitrary: s) (simp_all add: counts_not_negative_step)
  then show ?thesis using init by blast
qed

text \<open>
  Claim C2. For every provider and key, after any sequence of KeyManager operations,
  the failure count stays between zero and \<open>max_failures\<close>, and \<open>handle_api_failure\<close>
  increments the count capped at \<open>max_failures\<close>. The lower bound holds
  (\<open>counts_not_negative_run\<close>). The scheduled revalidation
  (\<open>check_failed_key_failure\<close>) does stop at the threshold, but \<open>handle_api_failure\<close>
  adds one without looking at it: on the pool \<open>[k]\<close> with \<open>MAX_FAILURES = 1\<close>, two
  failures of \<open>k\<close> leave the count at 2.
\<close>

theorem handle_api_failure_exceeds_max_failures:
  "get_fail_count
     (fold (key_step 3) [Handle_api_failure ''k'' 1, Handle_api_failure ''k'' 2]
        (KeyManager 1 [''k''])) ''k'' = 2
   \<and> MAX_FAILURES
       (fold (key_step 3) [Handle_api_failure ''k'' 1, Handle_api_failure ''k'' 2]
          (KeyManager 1 [''k''])) = 1"
  by (simp add: key_manager_eval)

text \<open>The sibling path keeps the bound: the scheduled job never takes a count above it.\<close>

lemma check_failed_key_failure_capped:
  "get_fail_count s key \<le> MAX_FAILURES s \<Longrightarrow>
   get_fail_count (check_failed_key_failure key' s) key
     \<le> MAX_FAILURES (check_failed_key_failure key' s)"
  by (auto simp: check_failed_key_failure_def get_fail_count_def split: option.splits)

text \<open>
  Claim C3. On a non-empty pool whose keys have all reached \<open>max_failures\<close>,
  \<open>get_next_working_key\<close> returns the first key of the pool in configuration order.
  The loop returns the key on which the cycle closes, which is the key under the
  cursor: with the pool \<open>[a, b]\<close>, both keys at the threshold and the cursor on \<open>b\<close>,
  the result is \<open>b\<close>, not \<open>a\<close>.
\<close>

theorem get_next_working_key_all_invalid:
  "api_keys all_invalid_manager = [''a'', ''b'']
   \<and> \<not> is_key_valid all_invalid_manager ''a'' \<and> \<not> is_key_valid all_invalid_manager ''b''
   \<and> map_option (map_sum id fst) (get_next_working_key all_invalid_manager) = Some (Inr ''b'')"
  by (simp add: all_invalid_manager_def key_manager_eval)

text \<open>
  With a key listed twice the cycle closes early: the loop takes the second \<open>a\<close> for
  the initial key and returns it, although \<open>c\<close> is valid. For a pool without repeated
  keys that holds a valid key, \<open>get_next_working_key_valid\<close> gives a valid key within
  one turn of the ring.
\<close>

lemma get_next_working_key_duplicate:
  "is_key_valid duplicate_manager ''c'' \<and> \<not> is_key_valid duplicate_manager ''a''
   \<and> map_option (map_sum id fst) (get_next_working_key duplicate_manager) = Some (Inr ''a'')"
  by (simp add: duplicate_manager_def key_manager_eval)

lemma first_valid_Some:
  "first_valid s keys = Some key \<Longrightarrow>
     \<exists>i < length keys. keys ! i = key \<and> is_key_valid s key
        \<and> (\<forall>j < i. \<not> is_key_valid s (keys ! j))"
proof (induction keys)
  case Nil
  then show ?case by simp
next
  case (Cons k keys)
  show ?case
  proof (cases "is_key_valid s k")
    case True
    then have "key = k" using Cons.prems by (simp add: is_key_valid_def)
    then show ?thesis using True by (intro exI [of _ 0]) simp
  next
    case False
    then have "first_valid s keys = Some key" using Cons.prems by (simp add: is_key_valid_def)
    then obtain i where i: "i < length keys" "keys ! i = key" "is_key_valid s key"
        "\<forall>j < i. \<not> is_key_valid s (keys ! j)"
      using Cons.IH by blast
    have "\<forall>j < Suc i. \<not> is_key_valid s ((k # keys) ! j)"
    proof (intro allI impI)
      fix j assume "j < Suc i"
      then show "\<not> is_key_valid s ((k # keys) ! j)"
        using False i(4) by (cases j) simp_all
    qed
    then show ?thesis using i by (intro exI [of _ "Suc i"]) simp
  qed
qed

lemma first_valid_None:
  "first_valid s keys = None \<longleftrightarrow> (\<forall>k \<in> set keys. \<not> is_key_valid s k)"
  by (induction keys) (auto simp: is_key_valid_def)

text \<open>
  Claim C10, as amended. On a non-empty pool \<open>get_first_valid_key\<close> returns a key of
  the pool, hence a non-empty string whenever no key of the pool is the empty string:
  the first key in configuration order whose count is below \<open>MAX_FAILURES\<close> when there
  is one, the first key of the pool otherwise. \<open>get_models\<close>, called without a key and
  with no \<open>model_request_key\<close> configured, uses that key when it is not empty.
\<close>

theorem get_first_valid_key_result:
  assumes "api_keys s \<noteq> []"
  shows "get_first_valid_key s \<in> set (api_keys s)
     \<and> ([] \<notin> set (api_keys s) \<longrightarrow> get_first_valid_key s \<noteq> [])
     \<and> ((\<exists>k \<in> set (api_keys s). is_key_valid s k) \<longrightarrow>
          (\<exists>i < length (api_keys s). get_first_valid_key s = api_keys s ! i
              \<and> is_key_valid s (api_keys s ! i)
              \<and> (\<forall>j < i. \<not> is_key_valid s (api_keys s ! j))))
     \<and> ((\<forall>k \<in> set (api_keys s). \<not> is_key_valid s k) \<longrightarrow>
          get_first_valid_key s = hd (api_keys s))
     \<and> (cfg_model_request_key config = [] \<and> get_first_valid_key s \<noteq> [] \<longrightarrow>
          get_models_key no_key_message None config s = Inr (get_first_valid_key s))"
proof (cases "first_valid s (api_keys s)")
  case None
  then have inv: "\<forall>k \<in> set (api_keys s). \<not> is_key_valid s k"
    by (simp add: first_valid_None)
  have r: "get_first_valid_key s = hd (api_keys s)"
    using None assms by (cases "api_keys s") (simp_all add: get_first_valid_key_def)
  then have "get_first_valid_key s \<in> set (api_keys s)" using assms by simp
  then show ?thesis using inv r by (auto simp: get_models_key_def Let_def)
next
  case (Some key)
  then obtain i where i: "i < length (api_keys s)" "api_keys s ! i = key" "is_key_valid s key"
      "\<forall>j < i. \<not> is_key_valid s (api_keys s ! j)"
    using first_valid_Some by blast
  have r: "get_first_valid_key s = key" using Some by (simp add: get_first_valid_key_def)
  have mem: "key \<in> set (api_keys s)" using i(1,2) nth_mem by blast
  have "\<exists>i < length (api_keys s). get_first_valid_key s = api_keys s ! i
              \<and> is_key_valid s (api_keys s ! i)
              \<and> (\<forall>j < i. \<not> is_key_valid s (api_keys s ! j))"
    using i r by blast
  moreover have "[] \<notin> set (api_keys s) \<longrightarrow> get_first_valid_key s \<noteq> []"
    using r mem by auto
  moreover have "get_first_valid_key s \<in> set (api_keys s)"
    using r mem by simp
  moreover have "(\<forall>k \<in> set (api_keys s). \<not> is_key_valid s k) \<longrightarrow>
          get_first_valid_key s = hd (api_keys s)"
    using mem i(3) by auto
  moreover have "cfg_model_request_key config = [] \<and> get_first_valid_key s \<noteq> [] \<longrightarrow>
          get_models_key no_key_message None config s = Inr (get_first_valid_key s)"
    by (simp add: get_models_key_def Let_def)
  ultimately show ?thesis by blast
qed

text \<open>
  The theorem on the pool \<open>[k1, k2]\<close> with both keys at the threshold: the fallback is
  \<open>k1\<close>, and the models request goes out with it.
\<close>

theorem get_first_valid_key_result_witness:
  "get_first_valid_key fallback_manager = ''k1''
   \<and> get_models_key ''no key'' None example_config fallback_manager = Inr ''k1''"
proof -
  have a: "api_keys fallback_manager \<noteq> []"
    by (simp add: fallback_manager_def KeyManager_def)
  have b: "\<forall>k \<in> set (api_keys fallback_manager). \<not> is_key_valid fallback_manager k"
    by (simp add: fallback_manager_def KeyManager_def is_key_valid_def get_fail_count_def)
  have c: "hd (api_keys fallback_manager) = ''k1''"
    by (simp add: fallback_manager_def KeyManager_def)
  have d: "cfg_model_request_key example_config = []"
    by (simp add: example_config_def)
  show ?thesis
    using get_first_valid_key_result [OF a, of example_config "''no key''"] b c d
    by simp
qed

text \<open>
  Claim C10 as stated fails on a pool that holds the empty string: the pool whose only
  key is the empty string is not empty, and \<open>get_first_valid_key\<close> returns that key.
\<close>

theorem get_first_valid_key_empty_key:
  "api_keys (KeyManager 3 [[]]) \<noteq> [] \<and> get_first_valid_key (KeyManager 3 [[]]) = []"
  by (simp add: KeyManager_def get_first_valid_key_def get_fail_count_def)

section \<open>ProxyManager: bindings and disabled proxies\<close>

lemma unbind_proxy_Some:
  "unbind_proxy p b k = Some x \<longleftrightarrow> b k = Some x \<and> x \<noteq> p"
  by (auto simp: unbind_proxy_def)

lemma fold_zero_failure_count_fields [simp]:
  "disabled_proxies (fold zero_failure_count ps s) = disabled_proxies s"
  "key_proxy_bindings (fold zero_failure_count ps s) = key_proxy_bindings s"
  "proxies (fold zero_failure_count ps s) = proxies s"
  "proxy_MAX_FAILURES (fold zero_failure_count ps s) = proxy_MAX_FAILURES s"
  by (induction ps arbitrary: s) (simp_all add: zero_failure_count_def)

lemma nth_mod_in_set:
  "xs \<noteq> [] \<Longrightarrow> xs ! nat (h mod int (length xs)) \<in> set xs"
  by (simp add: nat_less_iff)

lemma no_binding_remove_proxy:
  "no_binding_to_disabled s \<Longrightarrow> no_binding_to_disabled (remove_proxy p s)"
  by (auto simp: no_binding_to_disabled_def remove_proxy_def unbind_proxy_Some)

lemma no_binding_fold_remove_proxy:
  "no_binding_to_disabled s \<Longrightarrow> no_binding_to_disabled (fold remove_proxy ps s)"
  by (induction ps arbitrary: s) (simp_all add: no_binding_remove_proxy)

lemma no_binding_other_fields [simp]:
  "no_binding_to_disabled (s\<lparr>proxies := ps\<rparr>) = no_binding_to_disabled s"
  "no_binding_to_disabled (s\<lparr>proxy_MAX_FAILURES := m\<rparr>) = no_binding_to_disabled s"
  "no_binding_to_disabled (s\<lparr>proxy_failure_counts := c\<rparr>) = no_binding_to_disabled s"
  "no_binding_to_disabled (s\<lparr>last_check_time := t\<rparr>) = no_binding_to_disabled s"
  by (simp_all add: no_binding_to_disabled_def)

lemma no_binding_fold_zero [simp]:
  "no_binding_to_disabled (fold zero_failure_count ps s) = no_binding_to_disabled s"
  by (simp add: no_binding_to_disabled_def)

lemma no_binding_reload_proxies:
  "no_binding_to_disabled s \<Longrightarrow> no_binding_to_disabled (reload_proxies ps s)"
  by (simp add: reload_proxies_def Let_def no_binding_fold_remove_proxy)

lemma no_binding_get_proxy_for_key:
  assumes "no_binding_to_disabled s"
  shows "no_binding_to_disabled (snd (get_proxy_for_key hash use_hash rnd k s))"
proof -
  let ?av = "filter (\<lambda>p. p \<notin> disabled_proxies s) (proxies s)"
  have pick: "?av \<noteq> [] \<Longrightarrow> ?av ! nat (hash k mod int (length ?av)) \<notin> disabled_proxies s"
    using nth_mod_in_set [of ?av "hash k"] by auto
  show ?thesis
    using assms pick
    by (auto simp: get_proxy_for_key_def Let_def no_binding_to_disabled_def
             split: list.splits option.splits)
qed

lemma no_binding_record_proxy_failure:
  "no_binding_to_disabled s \<Longrightarrow> no_binding_to_disabled (snd (record_proxy_failure p s))"
  by (auto simp: record_proxy_failure_def Let_def no_binding_to_disabled_def unbind_proxy_Some
           split: option.splits)

lemma no_binding_step:
  assumes "no_binding_to_disabled s"
  shows "no_binding_to_disabled (proxy_step hash operation s)"
proof (cases operation)
  case (Reload_proxies ps)
  then show ?thesis using assms by (simp add: no_binding_reload_proxies)
next
  case (Get_proxy_for_key u r k)
  then show ?thesis using assms by (simp add: no_binding_get_proxy_for_key)
next
  case (Record_proxy_failure p)
  then show ?thesis using assms by (simp add: no_binding_record_proxy_failure)
next
  case (Record_proxy_success p)
  then show ?thesis using assms
    by (auto simp: record_proxy_success_def split: option.splits)
next
  case (Reset_proxy p)
  then show ?thesis using assms
    by (auto simp: reset_proxy_def Let_def no_binding_to_disabled_def)
next
  case Reset_all_proxies
  then show ?thesis by (simp add: reset_all_proxies_def no_binding_to_disabled_def)
next
  case (Disable_proxy p)
  then show ?thesis using assms
    by (auto simp: disable_proxy_def no_binding_to_disabled_def unbind_proxy_Some)
next
  case (Enable_proxy p)
  then show ?thesis using assms
    by (auto simp: enable_proxy_def no_binding_to_disabled_def)
next
  case (Update_last_check_time p now)
  then show ?thesis using assms by (simp add: update_last_check_time_def)
next
  case (Unbind_key_from_proxy k)
  then show ?thesis using assms
    by (auto simp: unbind_key_from_proxy_def no_binding_to_disabled_def)
next
  case (Reload_proxy_manager ps mf)
  then show ?thesis using assms
    by (simp add: reload_proxy_manager_def no_binding_reload_proxies)
qed

lemma no_binding_run:
  "no_binding_to_disabled s \<Longrightarrow> no_binding_to_disabled (fold (proxy_step hash) ops s)"
  by (induction ops arbitrary: s) (simp_all add: no_binding_step)

lemma no_binding_init: "no_binding_to_disabled (ProxyManager mf ps)"
  by (simp add: no_binding_to_disabled_def ProxyManager_def)

text \<open>
  Claim C9. Every ProxyManager operation preserves the invariant that no key binding
  points to a disabled proxy: it holds in a fresh manager and after any run of
  operations from it, and each operation keeps it from any state that has it.
\<close>

theorem no_binding_to_disabled_invariant:
  "no_binding_to_disabled (fold (proxy_step hash) ops (ProxyManager settings_PROXY_MAX_FAILURES ps))
   \<and> (no_binding_to_disabled s \<longrightarrow> no_binding_to_disabled (proxy_step hash operation s))"
  by (simp add: no_binding_run no_binding_init no_binding_step)

text \<open>
  With \<open>k\<close> bound to \<open>p2\<close> and a threshold of one, a failure of \<open>p2\<close> disables it, and
  the invariant says the binding of \<open>k\<close> is gone.
\<close>

theorem no_binding_to_disabled_invariant_witness:
  "''p2'' \<in> disabled_proxies (proxy_step (\<lambda>_. 0) (Record_proxy_failure ''p2'') bound_manager)
   \<and> key_proxy_bindings (proxy_step (\<lambda>_. 0) (Record_proxy_failure ''p2'') bound_manager) ''k''
       \<noteq> Some ''p2''"
proof -
  have a: "no_binding_to_disabled bound_manager"
    by (simp add: no_binding_to_disabled_def bound_manager_def ProxyManager_def)
  have b: "''p2'' \<in> disabled_proxies
             (proxy_step (\<lambda>_. 0) (Record_proxy_failure ''p2'') bound_manager)"
    by (simp add: bound_manager_def ProxyManager_def record_proxy_failure_def Let_def)
  have "no_binding_to_disabled (proxy_step (\<lambda>_. 0) (Record_proxy_failure ''p2'') bound_manager)"
    using a no_binding_to_disabled_invariant [of "\<lambda>_. 0" "[]" 1 "[]" bound_manager
        "Record_proxy_failure ''p2''"]
    by simp
  then show ?thesis using b unfolding no_binding_to_disabled_def by blast
qed

section \<open>ProxyManager: recording a failure\<close>

text \<open>
  Claim C4, as amended. For a proxy that is the empty string or has no entry in the
  failure counts, \<open>record_proxy_failure\<close> changes nothing and returns false. For any
  other proxy it adds one to the counter; when the new count is at least
  \<open>MAX_FAILURES\<close> it marks the proxy disabled and removes every binding that points
  to it. The result is true exactly when the new count is at least \<open>MAX_FAILURES\<close>,
  so it is true again on the next call for the same proxy; below the threshold the
  disabled set and the bindings are untouched.
\<close>

theorem record_proxy_failure_effect:
  "(proxy = [] \<or> proxy_failure_counts s proxy = None \<longrightarrow>
      record_proxy_failure proxy s = (False, s))
   \<and> (proxy \<noteq> [] \<and> proxy_failure_counts s proxy = Some c \<longrightarrow>
        proxy_failure_counts (snd (record_proxy_failure proxy s)) proxy = Some (c + 1)
        \<and> fst (record_proxy_failure proxy s) = (c + 1 \<ge> proxy_MAX_FAILURES s)
        \<and> (c + 1 \<ge> proxy_MAX_FAILURES s \<longrightarrow>
             proxy \<in> disabled_proxies (snd (record_proxy_failure proxy s))
             \<and> (\<forall>k. key_proxy_bindings (snd (record_proxy_failure proxy s)) k \<noteq> Some proxy)
             \<and> fst (record_proxy_failure proxy (snd (record_proxy_failure proxy s))))
        \<and> (c + 1 < proxy_MAX_FAILURES s \<longrightarrow>
             disabled_proxies (snd (record_proxy_failure proxy s)) = disabled_proxies s
             \<and> key_proxy_bindings (snd (record_proxy_failure proxy s)) = key_proxy_bindings s))"
  by (auto simp: record_proxy_failure_def Let_def unbind_proxy_def)

text \<open>
  With \<open>k\<close> bound to \<open>p2\<close> and a threshold of one: the first failure of \<open>p2\<close> counts
  one, returns true, disables \<open>p2\<close> and unbinds \<open>k\<close>; a proxy that is not configured
  is ignored.
\<close>

theorem record_proxy_failure_effect_witness:
  "proxy_failure_counts (snd (record_proxy_failure ''p2'' bound_manager)) ''p2'' = Some 1
   \<and> fst (record_proxy_failure ''p2'' bound_manager)
   \<and> ''p2'' \<in> disabled_proxies (snd (record_proxy_failure ''p2'' bound_manager))
   \<and> key_proxy_bindings (snd (record_proxy_failure ''p2'' bound_manager)) ''k'' \<noteq> Some ''p2''
   \<and> record_proxy_failure ''p3'' bound_manager = (False, bound_manager)"
proof -
  have a: "''p2'' \<noteq> [] \<and> proxy_failure_counts bound_manager ''p2'' = Some 0"
    by (simp add: bound_manager_def ProxyManager_def)
  have b: "0 + 1 \<ge> proxy_MAX_FAILURES bound_manager"
    by (simp add: bound_manager_def ProxyManager_def)
  have c: "proxy_failure_counts bound_manager ''p3'' = None"
    by (simp add: bound_manager_def ProxyManager_def)
  show ?thesis
    using a b c record_proxy_failure_effect [of "''p2''" bound_manager 0]
      record_proxy_failure_effect [of "''p3''" bound_manager 0]
    by simp
qed

text \<open>
  Claim C4 as stated fails on a proxy that is already disabled: with one proxy and a
  threshold of one, the first call returns true and disables the proxy, and the second
  call, which causes no transition, returns true again.
\<close>

theorem record_proxy_failure_true_twice:
  "fst (record_proxy_failure ''p'' (ProxyManager 1 [''p'']))
   \<and> ''p'' \<in> disabled_proxies (snd (record_proxy_failure ''p'' (ProxyManager 1 [''p''])))
   \<and> fst (record_proxy_failure ''p'' (snd (record_proxy_failure ''p'' (ProxyManager 1 [''p'']))))"
  by (simp add: ProxyManager_def record_proxy_failure_def Let_def)

section \<open>ProxyManager: sticky bindings\<close>

lemma fold_remove_proxy_binding:
  "key_proxy_bindings (fold remove_proxy rs s) k = Some p \<longleftrightarrow>
     key_proxy_bindings s k = Some p \<and> p \<notin> set rs"
  by (induction rs arbitrary: s) (auto simp: remove_proxy_def unbind_proxy_Some)

lemma reload_proxies_binding:
  "key_proxy_bindings (reload_proxies ps s) k = Some p \<longleftrightarrow>
     key_proxy_bindings s k = Some p \<and> (p \<in> set (proxies s) \<longrightarrow> p \<in> set ps)"
  by (auto simp: reload_proxies_def Let_def fold_remove_proxy_binding)

lemma reload_proxies_proxies [simp]: "proxies (reload_proxies ps s) = ps"
  by (simp add: reload_proxies_def Let_def)

text \<open>
  A binding to \<open>p\<close> survives every operation that leaves \<open>p\<close> available, except the two
  that clear bindings whatever their proxy.
\<close>

lemma binding_kept_step:
  assumes "key_proxy_bindings s k = Some p" "\<not> clears_binding k operation"
    and "is_available (proxy_step hash operation s) p"
  shows "key_proxy_bindings (proxy_step hash operation s) k = Some p"
proof (cases operation)
  case (Reload_proxies ps)
  then show ?thesis using assms
    by (simp add: reload_proxies_binding is_available_def get_available_proxies_def)
next
  case (Get_proxy_for_key u r k')
  then show ?thesis using assms
    by (auto simp: get_proxy_for_key_def Let_def is_available_def get_available_proxies_def
             split: list.splits option.splits if_splits)
next
  case (Record_proxy_failure x)
  then show ?thesis using assms
    by (auto simp: record_proxy_failure_def Let_def is_available_def get_available_proxies_def
                   unbind_proxy_Some split: option.splits if_splits)
next
  case (Record_proxy_success x)
  then show ?thesis using assms by (auto simp: record_proxy_success_def split: option.splits)
next
  case (Reset_proxy x)
  then show ?thesis using assms by (auto simp: reset_proxy_def Let_def)
next
  case Reset_all_proxies
  then show ?thesis using assms by simp
next
  case (Disable_proxy x)
  then show ?thesis using assms
    by (auto simp: disable_proxy_def is_available_def get_available_proxies_def unbind_proxy_Some
             split: if_splits)
next
  case (Enable_proxy x)
  then show ?thesis using assms by (auto simp: enable_proxy_def)
next
  case (Update_last_check_time x now)
  then show ?thesis using assms by (simp add: update_last_check_time_def)
next
  case (Unbind_key_from_proxy k')
  then show ?thesis using assms by (auto simp: unbind_key_from_proxy_def)
next
  case (Reload_proxy_manager ps mf)
  then show ?thesis using assms
    by (simp add: reload_proxy_manager_def reload_proxies_binding is_available_def
                  get_available_proxies_def)
qed

lemma binding_kept_run:
  assumes "key_proxy_bindings s k = Some p" "is_available s p"
    and "\<forall>operation \<in> set ops. \<not> clears_binding k operation"
    and "remains_available hash p ops s"
  shows "key_proxy_bindings (fold (proxy_step hash) ops s) k = Some p
         \<and> is_available (fold (proxy_step hash) ops s) p"
  using assms
proof (induction ops arbitrary: s)
  case Nil
  then show ?case by simp
next
  case (Cons operation ops)
  have "key_proxy_bindings (proxy_step hash operation s) k = Some p"
    using Cons.prems by (intro binding_kept_step) simp_all
  moreover have "is_available (proxy_step hash operation s) p"
    using Cons.prems by simp
  ultimately show ?case using Cons.IH [of "proxy_step hash operation s"] Cons.prems by simp
qed

lemma get_proxy_for_key_bound:
  assumes "key_proxy_bindings s k = Some p" "is_available s p"
  shows "get_proxy_for_key hash True rnd k s = (Some p, s)"
  using assms
  by (auto simp: get_proxy_for_key_def Let_def is_available_def get_available_proxies_def
                 filter_empty_conv)

lemma get_proxy_for_key_binds:
  assumes "get_available_proxies s \<noteq> []" "get_proxy_for_key hash True rnd k s = (Some p, s1)"
  shows "key_proxy_bindings s1 k = Some p \<and> is_available s1 p"
proof -
  let ?av = "filter (\<lambda>p. p \<notin> disabled_proxies s) (proxies s)"
  have "?av ! nat (hash k mod int (length ?av)) \<in> set ?av"
    using assms(1) unfolding get_available_proxies_def by (intro nth_mod_in_set)
  then show ?thesis
    using assms
    by (auto simp: get_proxy_for_key_def Let_def is_available_def get_available_proxies_def
             split: option.splits if_splits)
qed

text \<open>
  Claim C8, as amended. In consistency-hash mode, once a call of \<open>get_proxy_for_key\<close>
  for \<open>k\<close> has found a proxy available and returned \<open>p\<close>, a later call for \<open>k\<close> returns
  \<open>p\<close> again and changes nothing, after any run of ProxyManager operations in which
  \<open>p\<close> stays available after every operation and which contains neither
  \<open>reset_all_proxies\<close> nor \<open>unbind_key_from_proxy(k)\<close>.
\<close>

theorem sticky_binding:
  assumes "get_available_proxies s \<noteq> []"
    and "get_proxy_for_key hash True rnd k s = (Some p, s1)"
    and "\<forall>operation \<in> set ops. \<not> clears_binding k operation"
    and "remains_available hash p ops s1"
  shows "get_proxy_for_key hash True rnd' k (fold (proxy_step hash) ops s1)
           = (Some p, fold (proxy_step hash) ops s1)"
proof -
  have "key_proxy_bindings s1 k = Some p \<and> is_available s1 p"
    using assms(1,2) by (rule get_proxy_for_key_binds)
  then have "key_proxy_bindings (fold (proxy_step hash) ops s1) k = Some p
         \<and> is_available (fold (proxy_step hash) ops s1) p"
    using assms(3,4) by (intro binding_kept_run) simp_all
  then show ?thesis by (simp add: get_proxy_for_key_bound)
qed

lemmas proxy_manager_eval =
  ProxyManager_def get_proxy_for_key_def record_proxy_failure_def disable_proxy_def
  enable_proxy_def reset_all_proxies_def zero_failure_count_def unbind_proxy_def
  reload_proxies_def remove_proxy_def is_available_def get_available_proxies_def Let_def

text \<open>
  With the first proxy disabled by hand, \<open>k\<close> is bound to \<open>p2\<close>; a failure of
  \<open>p1\<close>, a request for another key, the enabling and disabling of \<open>p1\<close> and a
  reload that drops \<open>p1\<close> and adds \<open>p3\<close> leave \<open>p2\<close> available, and \<open>k\<close> gets
  \<open>p2\<close> again.
\<close>

theorem sticky_binding_witness:
  "get_proxy_for_key (\<lambda>_. 0) True 0 ''k''
     (fold (proxy_step (\<lambda>_. 0)) quiet_operations after_first_call)
   = (Some ''p2'', fold (proxy_step (\<lambda>_. 0)) quiet_operations after_first_call)"
proof -
  have a: "get_available_proxies first_disabled_manager \<noteq> []"
    by (simp add: first_disabled_manager_def proxy_manager_eval)
  have b: "get_proxy_for_key (\<lambda>_. 0) True 0 ''k'' first_disabled_manager
             = (Some ''p2'', after_first_call)"
    by (simp add: after_first_call_def first_disabled_manager_def proxy_manager_eval)
  have c: "\<forall>operation \<in> set quiet_operations. \<not> clears_binding ''k'' operation"
    by (simp add: quiet_operations_def)
  have d: "remains_available (\<lambda>_. 0) ''p2'' quiet_operations after_first_call"
    by (simp add: quiet_operations_def after_first_call_def first_disabled_manager_def
          proxy_manager_eval)
  show ?thesis
    using sticky_binding [OF a b c d] .
qed

text \<open>
  Claim C8 as stated fails when the bindings are cleared: \<open>k\<close> is bound to \<open>p2\<close> while
  \<open>p1\<close> is disabled; \<open>reset_all_proxies\<close> leaves \<open>p2\<close> available, but it clears the
  binding and enables \<open>p1\<close>, and the next call for \<open>k\<close> binds it to \<open>p1\<close>.
\<close>

theorem rebinding_after_reset_all:
  "fst (get_proxy_for_key (\<lambda>_. 0) True 0 ''k'' first_disabled_manager) = Some ''p2''
   \<and> key_proxy_bindings after_first_call ''k'' = Some ''p2''
   \<and> is_available after_first_call ''p2''
   \<and> is_available (reset_all_proxies after_first_call) ''p2''
   \<and> fst (get_proxy_for_key (\<lambda>_. 0) True 0 ''k'' (reset_all_proxies after_first_call))
       = Some ''p1''"
  by (simp add: after_first_call_def first_disabled_manager_def proxy_manager_eval)

section \<open>Reload: failure counts carried over\<close>

lemma fold_restore_count_fields [simp]:
  "api_keys (fold (restore_count old) ks m) = api_keys m"
  "key_cycle (fold (restore_count old) ks m) = key_cycle m"
  "MAX_FAILURES (fold (restore_count old) ks m) = MAX_FAILURES m"
  by (induction ks arbitrary: m) (simp_all add: restore_count_def split: option.splits)

lemma fold_restore_count_counts:
  "key_failure_counts (fold (restore_count old) ks m) k =
     (if k \<in> set ks \<and> old k \<noteq> None then old k else key_failure_counts m k)"
  by (induction ks arbitrary: m) (auto simp: restore_count_def split: option.splits)

lemma reload_provider_registered:
  assumes "cfg_enabled config" "cfg_api_keys config \<noteq> []"
  shows "\<exists>m. managers (reload_provider smf
                 (\<lambda>name. map_option key_failure_counts ((old :: string \<rightharpoonup> key_manager) name))
                 config pkm)
               (cfg_name config) = Some m
             \<and> reloaded_from old config m"
proof (cases "old (cfg_name config)")
  case None
  then show ?thesis using assms
    by (simp add: reload_provider_def Let_def reloaded_from_def KeyManager_def map_of_keys)
next
  case (Some om)
  then show ?thesis using assms
    by (auto simp: reload_provider_def Let_def reloaded_from_def KeyManager_def map_of_keys
          fold_restore_count_counts get_fail_count_def split: option.splits)
qed

lemma reload_provider_other:
  "name \<noteq> cfg_name config \<Longrightarrow>
   managers (reload_provider smf preserved config pkm) name = managers pkm name"
  by (simp add: reload_provider_def Let_def)

lemma reload_provider_skipped:
  "\<not> (cfg_enabled config \<and> cfg_api_keys config \<noteq> []) \<Longrightarrow>
   reload_provider smf preserved config pkm = pkm"
  by (auto simp: reload_provider_def)

text \<open>
  By induction on the configurations from the right: the manager found under a name
  was put there by the last configuration of that name that got registered.
\<close>

lemma fold_reload_provider:
  assumes "managers (fold (reload_provider smf
                 (\<lambda>name. map_option key_failure_counts ((old :: string \<rightharpoonup> key_manager) name)))
                       new_configs pkm0) name = Some m"
    and "managers pkm0 = Map.empty"
  shows "\<exists>config \<in> set new_configs. cfg_name config = name \<and> reloaded_from old config m"
  using assms
proof (induction new_configs arbitrary: m rule: rev_induct)
  case Nil
  then show ?case by simp
next
  case (snoc config configs)
  let ?pre = "\<lambda>name. map_option key_failure_counts (old name)"
  let ?st = "fold (reload_provider smf ?pre) configs pkm0"
  have m: "managers (reload_provider smf ?pre config ?st) name = Some m"
    using snoc.prems(1) by simp
  show ?case
  proof (cases "cfg_enabled config \<and> cfg_api_keys config \<noteq> [] \<and> cfg_name config = name")
    case True
    then obtain m' where "managers (reload_provider smf ?pre config ?st) (cfg_name config) = Some m'"
      and "reloaded_from old config m'"
      using reload_provider_registered [of config smf old ?st] by blast
    then show ?thesis using True m by auto
  next
    case False
    then have "managers ?st name = Some m"
      using m reload_provider_other [of name config smf ?pre ?st]
        reload_provider_skipped [of config smf ?pre ?st]
      by (cases "cfg_enabled config \<and> cfg_api_keys config \<noteq> []") auto
    then show ?thesis using snoc.IH snoc.prems(2) by auto
  qed
qed

lemma fold_reload_provider_registers:
  assumes "config \<in> set new_configs" "cfg_enabled config" "cfg_api_keys config \<noteq> []"
  shows "managers (fold (reload_provider smf
                 (\<lambda>name. map_option key_failure_counts ((old :: string \<rightharpoonup> key_manager) name)))
                       new_configs pkm0) (cfg_name config) \<noteq> None"
  using assms(1)
proof (induction new_configs rule: rev_induct)
  case Nil
  then show ?case by simp
next
  case (snoc c cs)
  let ?pre = "\<lambda>name. map_option key_failure_counts (old name)"
  let ?st = "fold (reload_provider smf ?pre) cs pkm0"
  show ?case
  proof (cases "cfg_enabled c \<and> cfg_api_keys c \<noteq> [] \<and> cfg_name c = cfg_name config")
    case True
    then show ?thesis
      using reload_provider_registered [of c smf old ?st] by auto
  next
    case False
    then have "c \<noteq> config" using assms(2,3) by auto
    then have "managers ?st (cfg_name config) \<noteq> None" using snoc by auto
    then show ?thesis
      using False reload_provider_other [of "cfg_name config" c smf ?pre ?st]
        reload_provider_skipped [of c smf ?pre ?st]
      by (cases "cfg_enabled c \<and> cfg_api_keys c \<noteq> []") auto
  qed
qed

text \<open>
  The singleton of key_manager.py, reset and created again with a new key list,
  takes over the counts in the same way.
\<close>

lemma reinstantiated_counts:
  assumes "singleton_instance g = Some old"
  shows "\<exists>m g'. get_key_manager_instance smf (Some keys) (reset_key_manager_instance g) = (Inr m, g')
           \<and> api_keys m = keys
           \<and> (\<forall>key \<in> set keys. key_failure_counts m key = Some (get_fail_count old key))
           \<and> (\<forall>key. key \<notin> set keys \<longrightarrow> key_failure_counts m key = None)"
  using assms
  by (auto simp: get_key_manager_instance_def reset_key_manager_instance_def Let_def
        inherit_failure_counts_def KeyManager_def map_of_keys get_fail_count_def
        split: option.splits)

text \<open>
  Claim C5. After \<open>reload_providers\<close>, every registered key manager belongs to an
  enabled configuration of the new list with keys, under that configuration's name:
  each key of the configuration that the provider of the same name had before keeps
  its failure count, each key it did not have starts at zero, and no count is held for
  a key outside the configuration, so the counts of removed keys are gone. Every
  enabled configuration with keys is registered. The singleton key manager that is
  reset and created again with a new key list holds, for each new key, the count the
  old instance had for it (zero for a key it did not have) and no other count.
\<close>

theorem reload_keeps_failure_counts:
  "(\<forall>name m. managers (reload_providers smf new_configs pkm) name = Some m \<longrightarrow>
      (\<exists>config \<in> set new_configs. cfg_name config = name \<and> reloaded_from (managers pkm) config m))
   \<and> (\<forall>config \<in> set new_configs. cfg_enabled config \<and> cfg_api_keys config \<noteq> [] \<longrightarrow>
        managers (reload_providers smf new_configs pkm) (cfg_name config) \<noteq> None)
   \<and> (singleton_instance g = Some old \<longrightarrow>
        (\<exists>m g'. get_key_manager_instance smf (Some keys) (reset_key_manager_instance g)
                  = (Inr m, g')
           \<and> api_keys m = keys
           \<and> (\<forall>key \<in> set keys. key_failure_counts m key = Some (get_fail_count old key))
           \<and> (\<forall>key. key \<notin> set keys \<longrightarrow> key_failure_counts m key = None)))"
proof (intro conjI allI impI ballI)
  fix name m
  assume "managers (reload_providers smf new_configs pkm) name = Some m"
  then show "\<exists>config \<in> set new_configs. cfg_name config = name \<and> reloaded_from (managers pkm) config m"
    using fold_reload_provider [of smf "managers pkm" new_configs
        "pkm\<lparr>managers := Map.empty, configs := Map.empty\<rparr>" name m]
    by (simp add: reload_providers_def Let_def)
next
  fix config
  assume "config \<in> set new_configs" "cfg_enabled config \<and> cfg_api_keys config \<noteq> []"
  then show "managers (reload_providers smf new_configs pkm) (cfg_name config) \<noteq> None"
    using fold_reload_provider_registers [of config new_configs smf "managers pkm"]
    by (simp add: reload_providers_def Let_def)
next
  assume "singleton_instance g = Some old"
  then show "\<exists>m g'. get_key_manager_instance smf (Some keys) (reset_key_manager_instance g)
                  = (Inr m, g')
           \<and> api_keys m = keys
           \<and> (\<forall>key \<in> set keys. key_failure_counts m key = Some (get_fail_count old key))
           \<and> (\<forall>key. key \<notin> set keys \<longrightarrow> key_failure_counts m key = None)"
    by (rule reinstantiated_counts)
qed

text \<open>
  Provider \<open>A\<close> had the keys \<open>k1\<close> and \<open>k2\<close> with counts 2 and 1 and is reloaded with
  the keys \<open>k1\<close> and \<open>k3\<close>: \<open>k1\<close> keeps 2, \<open>k3\<close> starts at 0, \<open>k2\<close> has no count.
  The singleton had counts 1 and 2 for \<open>k1\<close> and \<open>k2\<close>: created again with \<open>k1\<close> and
  \<open>k3\<close>, it holds 1 and 0.
\<close>

theorem reload_keeps_failure_counts_witness:
  "map_option (\<lambda>m. (key_failure_counts m ''k1'', key_failure_counts m ''k3'',
                     key_failure_counts m ''k2''))
     (managers (reload_providers 3 [config_after_reload] registry_before_reload) ''A'')
   = Some (Some 2, Some 0, None)
   \<and> map_sum id (\<lambda>m. (key_failure_counts m ''k1'', key_failure_counts m ''k3'',
                         key_failure_counts m ''k2''))
       (fst (get_key_manager_instance 3 (Some [''k1'', ''k3''])
               (reset_key_manager_instance singleton_before_reload)))
     = Inr (Some 1, Some 0, None)"
proof -
  let ?new = "reload_providers 3 [config_after_reload] registry_before_reload"
  have cfg: "cfg_name config_after_reload = ''A''" "cfg_enabled config_after_reload"
    "cfg_api_keys config_after_reload = [''k1'', ''k3'']"
    by (simp_all add: config_after_reload_def example_config_def)
  have "managers ?new (cfg_name config_after_reload) \<noteq> None"
    using reload_keeps_failure_counts [of 3 "[config_after_reload]" registry_before_reload] cfg
    by simp
  then obtain m where m: "managers ?new ''A'' = Some m" using cfg by auto
  then have "reloaded_from (managers registry_before_reload) config_after_reload m"
    using reload_keeps_failure_counts [of 3 "[config_after_reload]" registry_before_reload]
    by fastforce
  then have "key_failure_counts m ''k1'' = Some 2" "key_failure_counts m ''k3'' = Some 0"
    "key_failure_counts m ''k2'' = None"
    using cfg
    by (simp_all add: reloaded_from_def registry_before_reload_def get_fail_count_def
          KeyManager_def)
  then have providers: "map_option (\<lambda>m. (key_failure_counts m ''k1'', key_failure_counts m ''k3'',
                     key_failure_counts m ''k2'')) (managers ?new ''A'')
                  = Some (Some 2, Some 0, None)"
    using m by simp
  have "singleton_instance singleton_before_reload = Some fallback_manager"
    by (simp add: singleton_before_reload_def)
  then obtain m' g' where m': "get_key_manager_instance 3 (Some [''k1'', ''k3''])
               (reset_key_manager_instance singleton_before_reload) = (Inr m', g')"
    and counts: "\<forall>key \<in> set [''k1'', ''k3''].
                   key_failure_counts m' key = Some (get_fail_count fallback_manager key)"
    and gone: "\<forall>key. key \<notin> set [''k1'', ''k3''] \<longrightarrow> key_failure_counts m' key = None"
    using reload_keeps_failure_counts [of 3 "[]" registry_before_reload singleton_before_reload
        fallback_manager "[''k1'', ''k3'']"]
    by blast
  have "key_failure_counts m' ''k1'' = Some 1" "key_failure_counts m' ''k3'' = Some 0"
    "key_failure_counts m' ''k2'' = None"
    using counts gone
    by (simp_all add: fallback_manager_def get_fail_count_def KeyManager_def)
  then show ?thesis using providers m' by simp
qed

section \<open>Streaming: what a run yields\<close>

declare provider_stream_loop.simps [simp del]
declare compat_stream_loop.simps [simp del]

lemma stream_trace_ok_empty:
  "stream_trace_ok attempt upstream n
     \<lparr>yielded = [], raised = None, requests = [], manager = m, logs = []\<rparr>"
  by (simp add: stream_trace_ok_def)

lemma stream_trace_ok_single:
  "response = upstream n key \<Longrightarrow>
   stream_trace_ok attempt upstream n
     \<lparr>yielded = fst (attempt response), raised = e, requests = [(key, response)],
      manager = m, logs = w\<rparr>"
  by (simp add: stream_trace_ok_def)

lemma stream_trace_ok_then_run:
  assumes "stream_trace_ok attempt upstream (Suc n) r"
    and "response = upstream n key" "snd (attempt response) \<noteq> None"
  shows "stream_trace_ok attempt upstream n (then_run (fst (attempt response)) (key, response) w r)"
proof -
  have "\<forall>i < length ((key, response) # requests r).
          snd (((key, response) # requests r) ! i)
            = upstream (n + i) (fst (((key, response) # requests r) ! i))"
  proof (intro allI impI)
    fix i assume "i < length ((key, response) # requests r)"
    then show "snd (((key, response) # requests r) ! i)
            = upstream (n + i) (fst (((key, response) # requests r) ! i))"
      using assms(1,2) by (cases i) (simp_all add: stream_trace_ok_def)
  qed
  moreover have "\<forall>q \<in> set (butlast ((key, response) # requests r)). snd (attempt (snd q)) \<noteq> None"
    using assms(1,3) by (auto simp: stream_trace_ok_def)
  ultimately show ?thesis
    using assms(1) by (simp add: stream_trace_ok_def then_run_def)
qed

text \<open>
  The loop of the provider service returns, by induction on the attempts left; a failed
  attempt is followed by the next one whatever the attempt had yielded. The branches
  of the loop for a \<open>handle_api_failure\<close> that raises or does not return are never
  taken (\<open>handle_api_failure_returns\<close>).
\<close>

lemma provider_stream_loop_trace:
  "\<exists>r. provider_stream_loop str upstream max_retries settings_MAX_RETRIES retries key n km = Some r
       \<and> stream_trace_ok provider_attempt upstream n r"
proof (induction "nat (max_retries - retries)" arbitrary: retries key n km)
  case 0
  then have "\<not> retries < max_retries" by simp
  then show ?case
    by (subst provider_stream_loop.simps) (simp add: stream_trace_ok_empty)
next
  case (Suc m)
  then have lt: "retries < max_retries" by simp
  let ?resp = "upstream n key"
  show ?case
  proof (cases "snd (provider_attempt ?resp)")
    case None
    then show ?thesis
      using lt by (subst provider_stream_loop.simps) (simp add: Let_def stream_trace_ok_single)
  next
    case (Some e)
    obtain new km1 where haf:
      "handle_api_failure settings_MAX_RETRIES key (retries + 1) km = Some (Inr (new, km1))"
      using handle_api_failure_returns by blast
    show ?thesis
    proof (cases "new = [] \<or> retries + 1 \<ge> max_retries")
      case True
      then show ?thesis
        using lt Some haf
        by (subst provider_stream_loop.simps) (auto simp: Let_def stream_trace_ok_single)
    next
      case False
      let ?key' = "if new \<noteq> key then new else key"
      have m: "m = nat (max_retries - (retries + 1))" using Suc.hyps(2) by simp
      obtain r where r: "provider_stream_loop str upstream max_retries settings_MAX_RETRIES
                           (retries + 1) ?key' (n + 1) km1 = Some r"
        and ok: "stream_trace_ok provider_attempt upstream (n + 1) r"
        using Suc.hyps(1) [OF m] by blast
      have "provider_stream_loop str upstream max_retries settings_MAX_RETRIES retries key n km
              = Some (then_run (fst (provider_attempt ?resp)) (key, ?resp)
                   [Error_log key (message_of str e) (status_of e),
                    Request_log key False (status_of e)] r)"
        using lt Some haf False r
        by (subst provider_stream_loop.simps) (simp add: Let_def)
      moreover have "stream_trace_ok provider_attempt upstream n
              (then_run (fst (provider_attempt ?resp)) (key, ?resp)
                   [Error_log key (message_of str e) (status_of e),
                    Request_log key False (status_of e)] r)"
        using ok Some by (intro stream_trace_ok_then_run) simp_all
      ultimately show ?thesis by blast
    qed
  qed
qed

lemma compat_stream_loop_trace:
  "\<exists>r. compat_stream_loop str upstream max_retries retries key n key_manager = Some r
       \<and> stream_trace_ok compat_attempt upstream n r"
proof (induction "nat (max_retries - retries)" arbitrary: retries key n key_manager)
  case 0
  then have "\<not> retries < max_retries" by simp
  then show ?case
    by (subst compat_stream_loop.simps) (simp add: stream_trace_ok_empty)
next
  case (Suc m)
  then have lt: "retries < max_retries" by simp
  let ?resp = "upstream n key"
  show ?case
  proof (cases "snd (compat_attempt ?resp)")
    case None
    then show ?thesis
      using lt by (subst compat_stream_loop.simps) (simp add: Let_def stream_trace_ok_single)
  next
    case (Some e)
    note failed = this
    show ?thesis
    proof (cases key_manager)
      case None
      then show ?thesis
        using lt failed
        by (subst compat_stream_loop.simps) (simp add: Let_def stream_trace_ok_single)
    next
      case (Some km)
      note manager = this
      obtain new km1 where haf:
        "handle_api_failure max_retries key (retries + 1) km = Some (Inr (new, km1))"
        using handle_api_failure_returns by blast
      show ?thesis
      proof (cases "new = [] \<or> retries + 1 \<ge> max_retries")
        case True
        then show ?thesis
          using lt failed haf manager
          by (subst compat_stream_loop.simps) (auto simp: Let_def stream_trace_ok_single)
      next
        case False
        have m: "m = nat (max_retries - (retries + 1))" using Suc.hyps(2) by simp
        obtain r where r: "compat_stream_loop str upstream max_retries
                             (retries + 1) new (n + 1) (Some km1) = Some r"
          and ok: "stream_trace_ok compat_attempt upstream (n + 1) r"
          using Suc.hyps(1) [OF m] by blast
        have "compat_stream_loop str upstream max_retries retries key n key_manager
                = Some (then_run (fst (compat_attempt ?resp)) (key, ?resp)
                     [Error_log key (message_of str e) (status_of e),
                      Request_log new False (status_of e)] r)"
          using lt failed haf False r manager
          by (subst compat_stream_loop.simps) (simp add: Let_def)
        moreover have "stream_trace_ok compat_attempt upstream n
                (then_run (fst (compat_attempt ?resp)) (key, ?resp)
                     [Error_log key (message_of str e) (status_of e),
                      Request_log new False (status_of e)] r)"
          using ok failed by (intro stream_trace_ok_then_run) simp_all
        ultimately show ?thesis by blast
      qed
    qed
  qed
qed

lemma concat_all_but_last_empty:
  assumes "\<forall>q \<in> set (butlast qs). f q = []"
  shows "concat (map f qs) = (case qs of [] \<Rightarrow> [] | _ # _ \<Rightarrow> f (last qs))"
  using assms
proof (induction qs)
  case Nil
  then show ?case by simp
next
  case (Cons q qs)
  then show ?case by (cases qs) auto
qed

text \<open>
  Claim C1, as amended. A streaming chat-completion call of the provider service or
  of the OpenAI-compatible service returns a run whose yielded lines are the outputs
  of the upstream attempts it made, in order: what each attempt yielded before it
  ended, its non-empty lines with a newline appended (its \<open>data:\<close> lines with two
  newlines appended in the OpenAI-compatible service). Every attempt but the last
  ended with an exception and was followed by the next attempt, whether or not it had
  yielded lines. When every attempt that was retried had failed before it yielded a
  line, the yielded lines are those of the last attempt alone.
\<close>

theorem stream_yields_outputs_of_attempts:
  "(\<exists>r. provider_handle_stream_completion str upstream config settings_MAX_RETRIES api_key km
           = Some r
        \<and> stream_trace_ok provider_attempt upstream 0 r
        \<and> ((\<forall>q \<in> set (butlast (requests r)). fst (provider_attempt (snd q)) = [])
             \<longrightarrow> yielded r = last_output provider_attempt r))
   \<and> (\<exists>r. compat_handle_stream_completion str upstream settings_MAX_RETRIES api_key key_manager
             = Some r
        \<and> stream_trace_ok compat_attempt upstream 0 r
        \<and> ((\<forall>q \<in> set (butlast (requests r)). fst (compat_attempt (snd q)) = [])
             \<longrightarrow> yielded r = last_output compat_attempt r))"
proof
  obtain r where r: "provider_stream_loop str upstream (cfg_max_retries config)
                       settings_MAX_RETRIES 0 api_key 0 km = Some r"
    and ok: "stream_trace_ok provider_attempt upstream 0 r"
    using provider_stream_loop_trace by blast
  have "(\<forall>q \<in> set (butlast (requests r)). fst (provider_attempt (snd q)) = [])
          \<longrightarrow> yielded r = last_output provider_attempt r"
    using ok concat_all_but_last_empty [of "requests r" "\<lambda>q. fst (provider_attempt (snd q))"]
    by (simp add: stream_trace_ok_def last_output_def)
  then show "\<exists>r. provider_handle_stream_completion str upstream config settings_MAX_RETRIES
                    api_key km = Some r
        \<and> stream_trace_ok provider_attempt upstream 0 r
        \<and> ((\<forall>q \<in> set (butlast (requests r)). fst (provider_attempt (snd q)) = [])
             \<longrightarrow> yielded r = last_output provider_attempt r)"
    using r ok by (simp add: provider_handle_stream_completion_def)
next
  obtain r where r: "compat_stream_loop str upstream settings_MAX_RETRIES 0 api_key 0 key_manager
                       = Some r"
    and ok: "stream_trace_ok compat_attempt upstream 0 r"
    using compat_stream_loop_trace by blast
  have "(\<forall>q \<in> set (butlast (requests r)). fst (compat_attempt (snd q)) = [])
          \<longrightarrow> yielded r = last_output compat_attempt r"
    using ok concat_all_but_last_empty [of "requests r" "\<lambda>q. fst (compat_attempt (snd q))"]
    by (simp add: stream_trace_ok_def last_output_def)
  then show "\<exists>r. compat_handle_stream_completion str upstream settings_MAX_RETRIES api_key
                    key_manager = Some r
        \<and> stream_trace_ok compat_attempt upstream 0 r
        \<and> ((\<forall>q \<in> set (butlast (requests r)). fst (compat_attempt (snd q)) = [])
             \<longrightarrow> yielded r = last_output compat_attempt r)"
    using r ok by (simp add: compat_handle_stream_completion_def)
qed

lemmas stream_eval =
  provider_handle_stream_completion_def provider_stream_loop.simps
  compat_handle_stream_completion_def compat_stream_loop.simps
  example_config_def example_manager_def key_manager_eval
  then_run_def newline_def status_of_def message_of_def last_output_def

text \<open>
  The upstream rejects \<open>k1\<close> with 401 before any line and streams two events for
  \<open>k2\<close>: the rejected attempt yielded nothing, and the run yields the lines of the
  second attempt.
\<close>

theorem stream_yields_outputs_of_attempts_witness:
  "map_option (\<lambda>r. (map (\<lambda>q. fst (provider_attempt (snd q))) (butlast (requests r)),
                     yielded r, last_output provider_attempt r))
     (provider_handle_stream_completion (\<lambda>_. []) rotation_upstream example_config 3
        ''k1'' example_manager)
     = Some ([[]], [''data: a'' @ newline, ''data: [DONE]'' @ newline],
             [''data: a'' @ newline, ''data: [DONE]'' @ newline])
   \<and> map_option (\<lambda>r. (map (\<lambda>q. fst (compat_attempt (snd q))) (butlast (requests r)),
                     yielded r, last_output compat_attempt r))
     (compat_handle_stream_completion (\<lambda>_. []) rotation_upstream 3
        ''k1'' (Some example_manager))
     = Some ([[]], [''data: a'' @ newline @ newline, ''data: [DONE]'' @ newline @ newline],
             [''data: a'' @ newline @ newline, ''data: [DONE]'' @ newline @ newline])"
proof -
  let ?p = "provider_handle_stream_completion (\<lambda>_. []) rotation_upstream
              example_config 3 ''k1'' example_manager"
  let ?c = "compat_handle_stream_completion (\<lambda>_. []) rotation_upstream 3
              ''k1'' (Some example_manager)"
  obtain r r' where r: "?p = Some r"
    and r_last: "(\<forall>q \<in> set (butlast (requests r)). fst (provider_attempt (snd q)) = [])
                   \<longrightarrow> yielded r = last_output provider_attempt r"
    and r': "?c = Some r'"
    and r'_last: "(\<forall>q \<in> set (butlast (requests r')). fst (compat_attempt (snd q)) = [])
                   \<longrightarrow> yielded r' = last_output compat_attempt r'"
    using stream_yields_outputs_of_attempts [of "\<lambda>_. []" rotation_upstream
        example_config 3 "''k1''" example_manager "Some example_manager"]
    by blast
  have reqs: "map_option (\<lambda>r. map (\<lambda>q. fst (provider_attempt (snd q))) (butlast (requests r))) ?p
                = Some [[]]"
    by (simp add: stream_eval rotation_upstream_def)
  have out: "map_option (last_output provider_attempt) ?p
                = Some [''data: a'' @ newline, ''data: [DONE]'' @ newline]"
    by (simp add: stream_eval rotation_upstream_def)
  have reqs': "map_option (\<lambda>r. map (\<lambda>q. fst (compat_attempt (snd q))) (butlast (requests r))) ?c
                = Some [[]]"
    by (simp add: stream_eval rotation_upstream_def)
  have out': "map_option (last_output compat_attempt) ?c
                = Some [''data: a'' @ newline @ newline, ''data: [DONE]'' @ newline @ newline]"
    by (simp add: stream_eval rotation_upstream_def)
  have "map (\<lambda>q. fst (provider_attempt (snd q))) (butlast (requests r)) = [[]]"
    using reqs r by simp
  then have "\<forall>x \<in> set (map (\<lambda>q. fst (provider_attempt (snd q))) (butlast (requests r))). x = []"
    by simp
  then have "\<forall>q \<in> set (butlast (requests r)). fst (provider_attempt (snd q)) = []"
    by simp
  then have y: "yielded r = last_output provider_attempt r" using r_last by blast
  have "map (\<lambda>q. fst (compat_attempt (snd q))) (butlast (requests r')) = [[]]"
    using reqs' r' by simp
  then have "\<forall>x \<in> set (map (\<lambda>q. fst (compat_attempt (snd q))) (butlast (requests r'))). x = []"
    by simp
  then have "\<forall>q \<in> set (butlast (requests r')). fst (compat_attempt (snd q)) = []"
    by simp
  then have y': "yielded r' = last_output compat_attempt r'" using r'_last by blast
  show ?thesis
    using r r' reqs out reqs' out' y y' by simp
qed

text \<open>
  Claim C1 as stated fails when an attempt breaks after its first line: with two
  attempts allowed, the first response yields \<open>data: a\<close> and then raises, the key
  manager hands out \<open>k2\<close>, and the second response is yielded in full after the line
  already delivered. The lines yielded come from two attempts and repeat \<open>data: a\<close>.
\<close>

theorem stream_retries_after_first_yield:
  "map_option (\<lambda>r. (yielded r, map fst (requests r)))
     (provider_handle_stream_completion (\<lambda>_. []) interrupted_upstream example_config 3
        ''k1'' example_manager)
   = Some ([''data: a'' @ newline, ''data: a'' @ newline, ''data: b'' @ newline], [''k1'', ''k2''])
   \<and> fst (provider_attempt (interrupted_upstream 0 ''k1'')) = [''data: a'' @ newline]
   \<and> fst (provider_attempt (interrupted_upstream 1 ''k2''))
       = [''data: a'' @ newline, ''data: b'' @ newline]"
  by (simp add: stream_eval interrupted_upstream_def)

section \<open>Streaming: the number of attempts\<close>

text \<open>
  Claim C7, as amended. \<open>max_retries\<close> is the number of attempts of a streaming call.
  With \<open>max_retries = 0\<close> the loop is not entered: no upstream request is issued and
  the generator returns without a line and without an error. With \<open>max_retries = 1\<close>
  exactly one request is issued, with the key of the call; the generator yields what
  that attempt yields, and when the attempt fails its exception is raised to the
  caller.
\<close>

theorem max_retries_bounds_attempts:
  "provider_handle_stream_completion str upstream (config\<lparr>cfg_max_retries := 0\<rparr>)
       settings_MAX_RETRIES api_key km
     = Some \<lparr>yielded = [], raised = None, requests = [], manager = km, logs = []\<rparr>
   \<and> (\<exists>r. provider_handle_stream_completion str upstream (config\<lparr>cfg_max_retries := 1\<rparr>)
             settings_MAX_RETRIES api_key km = Some r
          \<and> requests r = [(api_key, upstream 0 api_key)]
          \<and> yielded r = fst (provider_attempt (upstream 0 api_key))
          \<and> raised r = snd (provider_attempt (upstream 0 api_key)))"
proof
  show "provider_handle_stream_completion str upstream (config\<lparr>cfg_max_retries := 0\<rparr>)
       settings_MAX_RETRIES api_key km
     = Some \<lparr>yielded = [], raised = None, requests = [], manager = km, logs = []\<rparr>"
    by (simp add: provider_handle_stream_completion_def provider_stream_loop.simps)
next
  obtain new km1 where haf:
    "handle_api_failure settings_MAX_RETRIES api_key 1 km = Some (Inr (new, km1))"
    using handle_api_failure_returns by blast
  show "\<exists>r. provider_handle_stream_completion str upstream (config\<lparr>cfg_max_retries := 1\<rparr>)
             settings_MAX_RETRIES api_key km = Some r
          \<and> requests r = [(api_key, upstream 0 api_key)]
          \<and> yielded r = fst (provider_attempt (upstream 0 api_key))
          \<and> raised r = snd (provider_attempt (upstream 0 api_key))"
    using haf
    by (cases "snd (provider_attempt (upstream 0 api_key))")
       (simp_all add: provider_handle_stream_completion_def provider_stream_loop.simps Let_def)
qed

text \<open>
  Claim C7 as stated fails: with \<open>max_retries = 0\<close> and an upstream that would reject
  the request with 401, no request is issued and no error reaches the caller.
\<close>

theorem max_retries_zero_no_attempt:
  "snd (provider_attempt (rejecting_upstream 0 ''k1''))
       = Some (Exception [IntV 401, StrV ''invalid api key''])
   \<and> map_option (\<lambda>r. (requests r, raised r))
       (provider_handle_stream_completion (\<lambda>_. []) rejecting_upstream
          (example_config\<lparr>cfg_max_retries := 0\<rparr>) 3 ''k1'' example_manager)
     = Some ([], None)"
  by (simp add: provider_handle_stream_completion_def provider_stream_loop.simps
        rejecting_upstream_def example_config_def)

section \<open>The stream handler of the routers\<close>

lemma handle_chat_completion_error:
  "handle_chat_completion str (Generator [] (Some e)) =
     Some (JSONResponse (JObj [(''error'', JObj [(''code'', JVal (status_of e)),
                                                  (''message'', JVal (message_of str e))])])
             (status_of e))"
  by (simp add: handle_chat_completion_def Let_def)

lemma handle_chat_completion_data:
  "prefix ''data:'' first_chunk \<Longrightarrow>
   handle_chat_completion str (Generator (first_chunk # rest) ending) =
     Some (StreamingResponse (first_chunk # rest) ending ''text/event-stream'')"
  by (simp add: handle_chat_completion_def)

lemma handle_chat_completion_other:
  "\<not> prefix ''data:'' first_chunk \<Longrightarrow>
   handle_chat_completion str (Generator (first_chunk # rest) ending) = None"
  by (simp add: handle_chat_completion_def)

text \<open>
  Claim C6. The common stream handler classifies the stream by its first line: an
  exception on the first pull gives a JSON error body with the raised status code, a
  first line that starts with \<open>data:\<close> gives a \<open>text/event-stream\<close> response of the
  first line followed by the rest, and any other first object is passed through as a
  non-stream response. The first two cases are \<open>handle_chat_completion_error\<close> and
  \<open>handle_chat_completion_data\<close>. The third has no branch in the handler: after the
  \<open>if\<close> on the prefix the function ends, so for a stream that opens with
  \<open>event: ping\<close> it returns nothing, and the first line is lost.
\<close>

theorem first_chunk_without_data_prefix:
  "handle_chat_completion (\<lambda>_. [])
     (Generator [''event: ping'' @ newline, ''data: x'' @ newline] None) = None"
  by (simp add: handle_chat_completion_def newline_def)

end
